theory Spec2Isabelle
  imports Main
begin

section \<open>The n-ary tree of package ntree, on an explicit heap\<close>

text \<open>
  The Go code works on heap objects: nodes are reached through pointers and carry a
  parent pointer, and the entries of a node are a slice, that is a window
  (offset, length, capacity) on a backing array that other slices may share.
  Both are kept in the model. A node pointer is an index into the list \<open>nodes\<close>,
  \<open>None\<close> is the nil pointer; a backing array of entry pointers is an index into the
  list \<open>arrays\<close>. The elements themselves are never written after their creation, so
  a pointer to an element is modelled by the element, and a nil element pointer by
  \<open>None\<close>.

  A run-time panic is a value: \<open>NilDereference\<close> for a nil pointer dereference,
  \<open>IndexOutOfRange\<close> for an index or slice expression out of range.
\<close>

datatype error = NilDereference | IndexOutOfRange

record ('k, 'v) Element =
  Key :: 'k
  Value :: 'v

record slice =
  arr :: nat
  off :: nat
  len :: nat
  cap :: nat

record Node =
  Parent :: "nat option"
  Children :: "nat list"
  Elements :: slice

text \<open>
  The fields \<open>size\<close> and \<open>m\<close> of the Go struct are \<open>sizeT\<close> and \<open>mT\<close>. They are Go
  \<open>int\<close>s, modelled by unbounded integers, so the model is the program as long as
  no arithmetic overflows: the counter grows by one for an element that is stored in
  memory, and the only arithmetic on \<open>m\<close> is \<open>m - 1\<close>, which overflows for the least
  \<open>int\<close> only.
  The children of a node are a slice of node pointers. Every such slice is built by a
  composite literal or by appending to nil, and belongs to one node only, so it is
  modelled by the list of its elements.

  The last field is not a field of the Go struct but, like the two lists of the heap,
  a part of the machine the program runs on: \<open>growth old needed\<close> is the capacity that
  \<open>append\<close> gives the new backing array when the \<open>needed\<close> cells do not fit into the
  \<open>old\<close> capacity. No operation of the tree changes it.
\<close>

record ('k, 'v) Tree =
  Root :: "nat option"
  Comparator :: "'k \<Rightarrow> 'k \<Rightarrow> int"
  sizeT :: int
  mT :: int
  nodes :: "Node list"
  arrays :: "('k, 'v) Element option list list"
  growth :: "nat \<Rightarrow> nat \<Rightarrow> nat"

subsection \<open>Go integers and slices\<close>

text \<open>Go's integer division truncates toward zero.\<close>

definition go_div :: "int \<Rightarrow> int \<Rightarrow> int" where
  "go_div a b = sgn a * sgn b * (\<bar>a\<bar> div \<bar>b\<bar>)"

text \<open>
  The capacity that \<open>append\<close> gives a slice it has to reallocate is chosen by the Go
  runtime, not by the program. The language promises only a capacity that holds the
  needed length, which is \<open>growth_ok\<close>; every theorem below that speaks of all runs of
  the tree is proved for every growth rule with that property, so for the rule of
  any runtime and for every branching factor.

  \<open>growcap\<close> is the rule used where a run is evaluated on concrete keys: the capacity
  doubles, or is the needed length when that is larger. For a slice of pointers on a
  64-bit machine this is what the runtime does as long as the old capacity is at
  most 16. Above that the runtime rounds the doubled size up to the next size class
  of its allocator (a full slice of capacity 17 grows to 36, not 34), and from 256
  elements on it no longer doubles; \<open>growcap\<close> is not the runtime's rule there.
  A reallocation from a capacity \<open>c\<close> allocates an array of more than \<open>c\<close> cells, and
  the runs evaluated below allocate no array of more than 8 cells (theorem
  \<open>evaluated_runs_small_arrays\<close>), so they stay where \<open>growcap\<close> is the runtime's rule.
\<close>

definition growcap :: "nat \<Rightarrow> nat \<Rightarrow> nat" where
  "growcap old needed = (if 2 * old < needed then needed else 2 * old)"

definition growth_ok :: "(nat \<Rightarrow> nat \<Rightarrow> nat) \<Rightarrow> bool" where
  "growth_ok g = (\<forall>old needed. needed \<le> g old needed)"

text \<open>\<open>s[lo:]\<close> and \<open>s[:hi]\<close>: the bounds are checked against the length and the capacity.\<close>

definition slice_lo :: "slice \<Rightarrow> int \<Rightarrow> error + slice" where
  "slice_lo s lo =
     (if 0 \<le> lo \<and> lo \<le> int (len s)
      then Inr (s\<lparr>off := off s + nat lo, len := len s - nat lo, cap := cap s - nat lo\<rparr>)
      else Inl IndexOutOfRange)"

definition slice_hi :: "slice \<Rightarrow> int \<Rightarrow> error + slice" where
  "slice_hi s hi =
     (if 0 \<le> hi \<and> hi \<le> int (cap s) then Inr (s\<lparr>len := nat hi\<rparr>) else Inl IndexOutOfRange)"

text \<open>\<open>s[i]\<close> as a value and as the target of an assignment.\<close>

definition cell_get :: "'a list list \<Rightarrow> slice \<Rightarrow> int \<Rightarrow> error + 'a" where
  "cell_get as s i =
     (if 0 \<le> i \<and> i < int (len s) then Inr (as ! arr s ! (off s + nat i))
      else Inl IndexOutOfRange)"

definition cell_set :: "'a list list \<Rightarrow> slice \<Rightarrow> int \<Rightarrow> 'a \<Rightarrow> error + 'a list list" where
  "cell_set as s i v =
     (if 0 \<le> i \<and> i < int (len s)
      then Inr (as[arr s := (as ! arr s)[off s + nat i := v]])
      else Inl IndexOutOfRange)"

text \<open>
  \<open>append(s, v)\<close>: in place when the capacity allows it, so that the cell after the
  slice is overwritten whoever else can see it; into a new array otherwise, whose
  capacity the growth rule \<open>g\<close> of the runtime gives.
\<close>

definition slice_append :: "(nat \<Rightarrow> nat \<Rightarrow> nat) \<Rightarrow> 'a option list list \<Rightarrow> slice \<Rightarrow> 'a option \<Rightarrow> 'a option list list \<times> slice" where
  "slice_append g as s v =
     (if len s < cap s
      then (as[arr s := (as ! arr s)[off s + len s := v]], s\<lparr>len := len s + 1\<rparr>)
      else (as @ [take (len s) (drop (off s) (as ! arr s)) @ [v]
                  @ replicate (g (cap s) (len s + 1) - (len s + 1)) None],
            \<lparr>arr = length as, off = 0, len = len s + 1, cap = g (cap s) (len s + 1)\<rparr>))"

text \<open>\<open>copy(dst, src)\<close>: the source is read before the destination is written.\<close>

definition slice_copy :: "'a list list \<Rightarrow> slice \<Rightarrow> slice \<Rightarrow> 'a list list" where
  "slice_copy as dst src =
     (let vals = take (min (len dst) (len src)) (drop (off src) (as ! arr src))
      in as[arr dst := take (off dst) (as ! arr dst) @ vals
                        @ drop (off dst + length vals) (as ! arr dst)])"

subsection \<open>Small accessors\<close>

definition cmp_Compare :: "'k::linorder \<Rightarrow> 'k \<Rightarrow> int" where
  "cmp_Compare x y = (if x < y then - 1 else if y < x then 1 else 0)"

text \<open>
  \<open>New\<close> on a runtime with the growth rule \<open>g\<close>, and \<open>New\<close> on the runtime that the
  evaluated runs assume.
\<close>

definition New_on :: "(nat \<Rightarrow> nat \<Rightarrow> nat) \<Rightarrow> int \<Rightarrow> ('k::linorder, 'v) Tree" where
  "New_on g m0 =
     \<lparr>Root = None, Comparator = cmp_Compare, sizeT = 0, mT = m0, nodes = [], arrays = [],
      growth = g\<rparr>"

definition New :: "int \<Rightarrow> ('k::linorder, 'v) Tree" where
  "New m0 = New_on growcap m0"

definition Size :: "('k, 'v) Tree \<Rightarrow> int" where
  "Size t = sizeT t"

definition Clear :: "('k, 'v) Tree \<Rightarrow> ('k, 'v) Tree" where
  "Clear t = t\<lparr>Root := None, sizeT := 0\<rparr>"

definition Empty :: "('k, 'v) Tree \<Rightarrow> bool" where
  "Empty t = (sizeT t = 0)"

definition maxChildren :: "('k, 'v) Tree \<Rightarrow> int" where
  "maxChildren t = mT t"

definition maxElements :: "('k, 'v) Tree \<Rightarrow> int" where
  "maxElements t = mT t - 1"

definition isLeaf :: "('k, 'v) Tree \<Rightarrow> nat \<Rightarrow> bool" where
  "isLeaf t n = (length (Children (nodes t ! n)) = 0)"

definition shouldSplit :: "('k, 'v) Tree \<Rightarrow> nat \<Rightarrow> bool" where
  "shouldSplit t n = (int (len (Elements (nodes t ! n))) > maxElements t)"

definition isRoot :: "('k, 'v) Tree \<Rightarrow> nat \<Rightarrow> bool" where
  "isRoot t n = (Some n = Root t)"

subsection \<open>search\<close>

function search_loop :: "('k, 'v) Tree \<Rightarrow> slice \<Rightarrow> 'k \<Rightarrow> int \<Rightarrow> int \<Rightarrow> error + (int \<times> bool)" where
  "search_loop t s key lo hi =
     (if lo \<le> hi then
        (case cell_get (arrays t) s (go_div (lo + hi) 2) of
           Inl e \<Rightarrow> Inl e
         | Inr None \<Rightarrow> Inl NilDereference
         | Inr (Some x) \<Rightarrow>
             (if Comparator t key (Key x) = 0 then Inr (go_div (lo + hi) 2, True)
              else if Comparator t key (Key x) > 0
                then search_loop t s key (go_div (lo + hi) 2 + 1) hi
                else search_loop t s key lo (go_div (lo + hi) 2 - 1)))
      else Inr (lo, False))"
  by pat_completeness auto
termination
proof (relation "measure (\<lambda>(t, s, key, lo, hi). nat (hi - lo + 1))")
  show "wf (measure (\<lambda>(t, s, key, lo, hi). nat (hi - lo + 1)))" by simp
next
  fix t :: "('k, 'v) Tree" and s :: slice and key :: 'k and lo hi :: int
  assume "lo \<le> hi"
  have g: "go_div (lo + hi) 2 = (if 0 \<le> lo + hi then (lo + hi) div 2 else - ((- (lo + hi)) div 2))"
    by (simp add: go_div_def sgn_if)
  show "((t, s, key, go_div (lo + hi) 2 + 1, hi), (t, s, key, lo, hi))
          \<in> measure (\<lambda>(t, s, key, lo, hi). nat (hi - lo + 1))"
    using \<open>lo \<le> hi\<close> unfolding g by (simp split: if_splits) presburger
  show "((t, s, key, lo, go_div (lo + hi) 2 - 1), (t, s, key, lo, hi))
          \<in> measure (\<lambda>(t, s, key, lo, hi). nat (hi - lo + 1))"
    using \<open>lo \<le> hi\<close> unfolding g by (simp split: if_splits) presburger
qed

declare search_loop.simps [simp del]

definition search :: "('k, 'v) Tree \<Rightarrow> nat option \<Rightarrow> 'k \<Rightarrow> error + (int \<times> bool)" where
  "search t n key =
     (case n of
        None \<Rightarrow> Inr (0, False)
      | Some a \<Rightarrow> search_loop t (Elements (nodes t ! a)) key 0 (int (len (Elements (nodes t ! a))) - 1))"

subsection \<open>Writing the entries of a node\<close>

text \<open>
  \<open>n.Elements = append(n.Elements, nil)\<close> followed by
  \<open>copy(n.Elements[ipos+1:], n.Elements[ipos:])\<close>: the two statements that open a
  gap at \<open>ipos\<close>, in \<open>insertIntoLeaf\<close> and in \<open>splitNonRoot\<close>.
\<close>

definition shiftElements :: "('k, 'v) Tree \<Rightarrow> nat \<Rightarrow> int \<Rightarrow> error + ('k, 'v) Tree" where
  "shiftElements t n ipos =
     (case slice_append (growth t) (arrays t) (Elements (nodes t ! n)) None of
        (as1, s1) \<Rightarrow>
          (case slice_lo s1 (ipos + 1) of
             Inl e \<Rightarrow> Inl e
           | Inr dst \<Rightarrow>
               (case slice_lo s1 ipos of
                  Inl e \<Rightarrow> Inl e
                | Inr src \<Rightarrow>
                    Inr (t\<lparr>nodes := (nodes t)[n := (nodes t ! n)\<lparr>Elements := s1\<rparr>],
                           arrays := slice_copy as1 dst src\<rparr>))))"

text \<open>\<open>n.Elements[ipos] = v\<close>\<close>

definition setElement :: "('k, 'v) Tree \<Rightarrow> nat \<Rightarrow> int \<Rightarrow> ('k, 'v) Element option \<Rightarrow> error + ('k, 'v) Tree" where
  "setElement t n ipos v =
     (case cell_set (arrays t) (Elements (nodes t ! n)) ipos v of
        Inl e \<Rightarrow> Inl e
      | Inr as1 \<Rightarrow> Inr (t\<lparr>arrays := as1\<rparr>))"

subsection \<open>Splitting\<close>

text \<open>\<open>for _, c := range cs { c.Parent = p }\<close>\<close>

definition reparent :: "Node list \<Rightarrow> nat list \<Rightarrow> nat \<Rightarrow> Node list" where
  "reparent ns cs p = foldl (\<lambda>ns1 c. ns1[c := (ns1 ! c)\<lparr>Parent := Some p\<rparr>]) ns cs"

text \<open>
  The block guarded by \<open>!t.isLeaf(n)\<close> in \<open>splitRoot\<close> and \<open>splitNonRoot\<close>: the
  children of the node that is split are copied into two new slices,
  \<open>n.Children[:mid+1]\<close> and \<open>n.Children[mid+1:]\<close>, for the nodes \<open>left\<close> and
  \<open>right\<close>, and are given their new parent. Of the two slice expressions the second
  has the stronger bound, the length.
\<close>

definition moveChildren :: "('k, 'v) Tree \<Rightarrow> nat \<Rightarrow> int \<Rightarrow> nat \<Rightarrow> nat \<Rightarrow> error + ('k, 'v) Tree" where
  "moveChildren t n mid left right =
     (if 0 \<le> mid + 1 \<and> mid + 1 \<le> int (length (Children (nodes t ! n))) then
        (let lc = take (nat (mid + 1)) (Children (nodes t ! n));
             rc = drop (nat (mid + 1)) (Children (nodes t ! n));
             ns1 = (nodes t)[left := (nodes t ! left)\<lparr>Children := lc\<rparr>];
             ns2 = ns1[right := (ns1 ! right)\<lparr>Children := rc\<rparr>]
         in Inr (t\<lparr>nodes := reparent (reparent ns2 lc left) rc right\<rparr>))
      else Inl IndexOutOfRange)"

text \<open>
  The beginning of \<open>splitRoot\<close> and of \<open>splitNonRoot\<close>: the nodes \<open>left\<close> and
  \<open>right\<close> are allocated with the two slices of the entries of the node \<open>n\<close> that is
  split and with its parent pointer (nil in \<open>splitRoot\<close>), and they take the children
  of \<open>n\<close> if it has some. The new nodes are at the addresses \<open>length (nodes t)\<close> and
  \<open>length (nodes t) + 1\<close>.
\<close>

definition allocHalves :: "('k, 'v) Tree \<Rightarrow> nat \<Rightarrow> int \<Rightarrow> nat option \<Rightarrow> slice \<Rightarrow> slice \<Rightarrow> error + ('k, 'v) Tree" where
  "allocHalves t n mid parent le re =
     (if \<not> isLeaf (t\<lparr>nodes := nodes t @ [\<lparr>Parent = parent, Children = [], Elements = le\<rparr>,
                                             \<lparr>Parent = parent, Children = [], Elements = re\<rparr>]\<rparr>) n
      then moveChildren (t\<lparr>nodes := nodes t @ [\<lparr>Parent = parent, Children = [], Elements = le\<rparr>,
                                                \<lparr>Parent = parent, Children = [], Elements = re\<rparr>]\<rparr>)
             n mid (length (nodes t)) (length (nodes t) + 1)
      else Inr (t\<lparr>nodes := nodes t @ [\<lparr>Parent = parent, Children = [], Elements = le\<rparr>,
                                       \<lparr>Parent = parent, Children = [], Elements = re\<rparr>]\<rparr>))"

text \<open>
  The end of \<open>splitRoot\<close>: the new root is allocated with the promoted entry \<open>v\<close> in
  an array of its own and with the children \<open>left\<close> and \<open>right\<close>, whose parent it
  becomes.
\<close>

definition allocRoot :: "('k, 'v) Tree \<Rightarrow> nat \<Rightarrow> nat \<Rightarrow> ('k, 'v) Element option \<Rightarrow> ('k, 'v) Tree" where
  "allocRoot t left right v =
     t\<lparr>Root := Some (length (nodes t)),
       nodes := (nodes t @ [\<lparr>Parent = None, Children = [left, right],
                             Elements = \<lparr>arr = length (arrays t), off = 0, len = 1, cap = 1\<rparr>\<rparr>])
                [left := (nodes t ! left)\<lparr>Parent := Some (length (nodes t))\<rparr>,
                 right := (nodes t ! right)\<lparr>Parent := Some (length (nodes t))\<rparr>],
       arrays := arrays t @ [[v]]\<rparr>"

definition splitRoot :: "('k, 'v) Tree \<Rightarrow> error + ('k, 'v) Tree" where
  "splitRoot t =
     (case Root t of
        None \<Rightarrow> Inl NilDereference
      | Some r \<Rightarrow>
     (let mid = go_div (mT t - 1) 2 in
     (case slice_hi (Elements (nodes t ! r)) mid of
        Inl e \<Rightarrow> Inl e
      | Inr le \<Rightarrow>
     (case slice_lo (Elements (nodes t ! r)) (mid + 1) of
        Inl e \<Rightarrow> Inl e
      | Inr re \<Rightarrow>
     (case allocHalves t r mid None le re of
        Inl e \<Rightarrow> Inl e
      | Inr t2 \<Rightarrow>
     (case cell_get (arrays t2) (Elements (nodes t2 ! r)) mid of
        Inl e \<Rightarrow> Inl e
      | Inr v \<Rightarrow> Inr (allocRoot t2 (length (nodes t)) (length (nodes t) + 1) v)))))))"

text \<open>
  The four statements of \<open>splitNonRoot\<close> that put \<open>left\<close> in the slot \<open>ipos\<close> of the
  parent's children and \<open>right\<close> behind it:
  \<open>parent.Children[ipos] = left\<close>, \<open>append(parent.Children, nil)\<close>,
  \<open>copy(parent.Children[ipos+2:], parent.Children[ipos+1:])\<close> and
  \<open>parent.Children[ipos+1] = right\<close>. The first one is the one that can be out of
  range.
\<close>

definition insertChildren :: "('k, 'v) Tree \<Rightarrow> nat \<Rightarrow> int \<Rightarrow> nat \<Rightarrow> nat \<Rightarrow> error + ('k, 'v) Tree" where
  "insertChildren t p ipos left right =
     (if 0 \<le> ipos \<and> ipos < int (length (Children (nodes t ! p))) then
        Inr (t\<lparr>nodes := (nodes t)[p := (nodes t ! p)
                \<lparr>Children := take (nat ipos) (Children (nodes t ! p)) @ [left, right]
                              @ drop (nat ipos + 1) (Children (nodes t ! p))\<rparr>]\<rparr>)
      else Inl IndexOutOfRange)"

text \<open>
  \<open>splitNonRoot\<close> up to its last statement, the call \<open>t.split(parent)\<close>: the result
  is the new state and the parent.
\<close>

definition splitNonRoot_body :: "('k, 'v) Tree \<Rightarrow> nat \<Rightarrow> error + (('k, 'v) Tree \<times> nat)" where
  "splitNonRoot_body t n =
     (let mid = go_div (mT t - 1) 2;
          parent = Parent (nodes t ! n) in
     (case slice_hi (Elements (nodes t ! n)) mid of
        Inl e \<Rightarrow> Inl e
      | Inr le \<Rightarrow>
     (case slice_lo (Elements (nodes t ! n)) (mid + 1) of
        Inl e \<Rightarrow> Inl e
      | Inr re \<Rightarrow>
     (case allocHalves t n mid parent le re of
        Inl e \<Rightarrow> Inl e
      | Inr t2 \<Rightarrow>
     (case cell_get (arrays t2) (Elements (nodes t2 ! n)) mid of
        Inl e \<Rightarrow> Inl e
      | Inr None \<Rightarrow> Inl NilDereference
      | Inr (Some x) \<Rightarrow>
     (case search t2 parent (Key x) of
        Inl e \<Rightarrow> Inl e
      | Inr (ipos, found) \<Rightarrow>
     (case parent of
        None \<Rightarrow> Inl NilDereference
      | Some p \<Rightarrow>
     (case shiftElements t2 p ipos of
        Inl e \<Rightarrow> Inl e
      | Inr t3 \<Rightarrow>
     (case cell_get (arrays t3) (Elements (nodes t3 ! n)) mid of
        Inl e \<Rightarrow> Inl e
      | Inr v \<Rightarrow>
     (case setElement t3 p ipos v of
        Inl e \<Rightarrow> Inl e
      | Inr t4 \<Rightarrow>
     (case insertChildren t4 p ipos (length (nodes t)) (length (nodes t) + 1) of
        Inl e \<Rightarrow> Inl e
      | Inr t5 \<Rightarrow> Inr (t5, p))))))))))))"

text \<open>
  \<open>split\<close> and \<open>splitNonRoot\<close> call each other up the parent pointers. A run that
  does not end is the value \<open>None\<close>.
\<close>

partial_function (option) split :: "('k, 'v) Tree \<Rightarrow> nat \<Rightarrow> (error + ('k, 'v) Tree) option" where
  "split t n =
     (if \<not> shouldSplit t n then Some (Inr t)
      else if isRoot t n then Some (splitRoot t)
      else (case splitNonRoot_body t n of
              Inl e \<Rightarrow> Some (Inl e)
            | Inr (t1, parent) \<Rightarrow> split t1 parent))"

declare split.simps [code]

definition splitNonRoot :: "('k, 'v) Tree \<Rightarrow> nat \<Rightarrow> (error + ('k, 'v) Tree) option" where
  "splitNonRoot t n =
     (case splitNonRoot_body t n of
        Inl e \<Rightarrow> Some (Inl e)
      | Inr (t1, parent) \<Rightarrow> split t1 parent)"

subsection \<open>Insertion\<close>

definition insertIntoLeaf :: "('k, 'v) Tree \<Rightarrow> nat \<Rightarrow> ('k, 'v) Element \<Rightarrow> (error + (('k, 'v) Tree \<times> bool)) option" where
  "insertIntoLeaf t n ele =
     (case search t (Some n) (Key ele) of
        Inl e \<Rightarrow> Some (Inl e)
      | Inr (ipos, found) \<Rightarrow>
          if found then
            (case setElement t n ipos (Some ele) of
               Inl e \<Rightarrow> Some (Inl e)
             | Inr t1 \<Rightarrow> Some (Inr (t1, False)))
          else
            (case shiftElements t n ipos of
               Inl e \<Rightarrow> Some (Inl e)
             | Inr t1 \<Rightarrow>
                 (case setElement t1 n ipos (Some ele) of
                    Inl e \<Rightarrow> Some (Inl e)
                  | Inr t2 \<Rightarrow>
                      (case split t2 n of
                         None \<Rightarrow> None
                       | Some (Inl e) \<Rightarrow> Some (Inl e)
                       | Some (Inr t3) \<Rightarrow> Some (Inr (t3, True))))))"

text \<open>\<open>n.Children[ipos]\<close>\<close>

definition child_at :: "('k, 'v) Tree \<Rightarrow> nat \<Rightarrow> int \<Rightarrow> error + nat" where
  "child_at t n ipos =
     (if 0 \<le> ipos \<and> ipos < int (length (Children (nodes t ! n)))
      then Inr (Children (nodes t ! n) ! nat ipos)
      else Inl IndexOutOfRange)"

text \<open>
  \<open>insert\<close> and \<open>insertIntoChildren\<close> call each other down the tree; the second
  branch of \<open>insert_node\<close> is the body of \<open>insertIntoChildren\<close>.
\<close>

partial_function (option) insert_node :: "('k, 'v) Tree \<Rightarrow> nat \<Rightarrow> ('k, 'v) Element \<Rightarrow> (error + (('k, 'v) Tree \<times> bool)) option" where
  "insert_node t n ele =
     (if isLeaf t n then insertIntoLeaf t n ele
      else (case search t (Some n) (Key ele) of
              Inl e \<Rightarrow> Some (Inl e)
            | Inr (ipos, found) \<Rightarrow>
                if found then
                  (case setElement t n ipos (Some ele) of
                     Inl e \<Rightarrow> Some (Inl e)
                   | Inr t1 \<Rightarrow> Some (Inr (t1, False)))
                else
                  (case child_at t n ipos of
                     Inl e \<Rightarrow> Some (Inl e)
                   | Inr c \<Rightarrow> insert_node t c ele)))"

declare insert_node.simps [code]

definition insertIntoChildren :: "('k, 'v) Tree \<Rightarrow> nat \<Rightarrow> ('k, 'v) Element \<Rightarrow> (error + (('k, 'v) Tree \<times> bool)) option" where
  "insertIntoChildren t n ele =
     (case search t (Some n) (Key ele) of
        Inl e \<Rightarrow> Some (Inl e)
      | Inr (ipos, found) \<Rightarrow>
          if found then
            (case setElement t n ipos (Some ele) of
               Inl e \<Rightarrow> Some (Inl e)
             | Inr t1 \<Rightarrow> Some (Inr (t1, False)))
          else
            (case child_at t n ipos of
               Inl e \<Rightarrow> Some (Inl e)
             | Inr c \<Rightarrow> insert_node t c ele))"

definition Put :: "('k, 'v) Tree \<Rightarrow> 'k \<Rightarrow> 'v \<Rightarrow> (error + ('k, 'v) Tree) option" where
  "Put t key val =
     (case Root t of
        None \<Rightarrow>
          Some (Inr (t\<lparr>Root := Some (length (nodes t)),
                       sizeT := sizeT t + 1,
                       nodes := nodes t @ [\<lparr>Parent = None, Children = [],
                                             Elements = \<lparr>arr = length (arrays t), off = 0,
                                                          len = 1, cap = 1\<rparr>\<rparr>],
                       arrays := arrays t @ [[Some \<lparr>Key = key, Value = val\<rparr>]]\<rparr>))
      | Some r \<Rightarrow>
          (case insert_node t r \<lparr>Key = key, Value = val\<rparr> of
             None \<Rightarrow> None
           | Some (Inl e) \<Rightarrow> Some (Inl e)
           | Some (Inr (t1, added)) \<Rightarrow>
               Some (Inr (if added then t1\<lparr>sizeT := sizeT t1 + 1\<rparr> else t1))))"

subsection \<open>Lookup, height and dump\<close>

text \<open>
  The loop of \<open>searchRecursive\<close>. The result is the node, the index and the flag;
  the node of a failed search is nil.
\<close>

partial_function (option) searchRecursive_loop :: "('k, 'v) Tree \<Rightarrow> nat \<Rightarrow> 'k \<Rightarrow> (error + (nat option \<times> int \<times> bool)) option" where
  "searchRecursive_loop t n key =
     (case search t (Some n) key of
        Inl e \<Rightarrow> Some (Inl e)
      | Inr (ipos, found) \<Rightarrow>
          if found then Some (Inr (Some n, ipos, True))
          else if isLeaf t n then Some (Inr (None, - 1, False))
          else (case child_at t n ipos of
                  Inl e \<Rightarrow> Some (Inl e)
                | Inr c \<Rightarrow> searchRecursive_loop t c key))"

declare searchRecursive_loop.simps [code]

definition searchRecursive :: "('k, 'v) Tree \<Rightarrow> nat \<Rightarrow> 'k \<Rightarrow> (error + (nat option \<times> int \<times> bool)) option" where
  "searchRecursive t n key =
     (if Empty t then Some (Inr (None, 0, False)) else searchRecursive_loop t n key)"

text \<open>
  \<open>Get\<close> returns the pair (value, found). A lookup that fails returns the zero value
  of the value type with \<open>false\<close>: this is the result \<open>None\<close>; \<open>Some v\<close> is \<open>(v, true)\<close>.
\<close>

definition Get :: "('k, 'v) Tree \<Rightarrow> 'k \<Rightarrow> (error + 'v option) option" where
  "Get t key =
     (case Root t of
        None \<Rightarrow> Some (Inr None)
      | Some r \<Rightarrow>
          (case searchRecursive t r key of
             None \<Rightarrow> None
           | Some (Inl e) \<Rightarrow> Some (Inl e)
           | Some (Inr (n, index, found)) \<Rightarrow>
               if found then
                 (case n of
                    None \<Rightarrow> Some (Inl NilDereference)
                  | Some a \<Rightarrow>
                      (case cell_get (arrays t) (Elements (nodes t ! a)) index of
                         Inl e \<Rightarrow> Some (Inl e)
                       | Inr None \<Rightarrow> Some (Inl NilDereference)
                       | Inr (Some x) \<Rightarrow> Some (Inr (Some (Value x)))))
               else Some (Inr None)))"

definition GetNode :: "('k, 'v) Tree \<Rightarrow> 'k \<Rightarrow> (error + (nat option \<times> bool)) option" where
  "GetNode t key =
     (case Root t of
        None \<Rightarrow> Some (Inr (None, False))
      | Some r \<Rightarrow>
          (case searchRecursive t r key of
             None \<Rightarrow> None
           | Some (Inl e) \<Rightarrow> Some (Inl e)
           | Some (Inr (n, index, found)) \<Rightarrow> Some (Inr (n, found))))"

text \<open>
  The loop of \<open>height\<close>: the body counts the node and leaves the loop at a node
  without children; the post statement \<open>n = n.Children[0]\<close> runs otherwise.
\<close>

partial_function (option) height_loop :: "('k, 'v) Tree \<Rightarrow> nat option \<Rightarrow> int \<Rightarrow> (error + int) option" where
  "height_loop t n h =
     (case n of
        None \<Rightarrow> Some (Inr h)
      | Some a \<Rightarrow>
          if length (Children (nodes t ! a)) = 0 then Some (Inr (h + 1))
          else (case child_at t a 0 of
                  Inl e \<Rightarrow> Some (Inl e)
                | Inr c \<Rightarrow> height_loop t (Some c) (h + 1)))"

declare height_loop.simps [code]

definition height :: "('k, 'v) Tree \<Rightarrow> nat option \<Rightarrow> (error + int) option" where
  "height t n = height_loop t n 0"

definition Height :: "('k, 'v) Tree \<Rightarrow> (error + int) option" where
  "Height t = height t (Root t)"

text \<open>
  \<open>print\<close> writes one line for each entry: the indentation, two blanks for each
  level, and the key. The output is modelled by the list of the pairs (level, key) in
  the order in which they are written. \<open>print_from t n level e\<close> is the run of the
  loop of \<open>print\<close> on the node \<open>n\<close> from the position \<open>e\<close> on.
\<close>

partial_function (option) print_from :: "('k, 'v) Tree \<Rightarrow> nat \<Rightarrow> nat \<Rightarrow> int \<Rightarrow> (error + (nat \<times> 'k) list) option" where
  "print_from t n level e =
     (if e < int (len (Elements (nodes t ! n))) + 1 then
        Option.bind
          (if e < int (length (Children (nodes t ! n)))
           then (case child_at t n e of
                   Inl err \<Rightarrow> Some (Inl err)
                 | Inr c \<Rightarrow> print_from t c (level + 1) 0)
           else Some (Inr []))
          (\<lambda>r1. case r1 of
             Inl err \<Rightarrow> Some (Inl err)
           | Inr out1 \<Rightarrow>
               (case (if e < int (len (Elements (nodes t ! n)))
                      then (case cell_get (arrays t) (Elements (nodes t ! n)) e of
                              Inl err \<Rightarrow> Inl err
                            | Inr None \<Rightarrow> Inl NilDereference
                            | Inr (Some x) \<Rightarrow> Inr [(level, Key x)])
                      else Inr []) of
                  Inl err \<Rightarrow> Some (Inl err)
                | Inr out2 \<Rightarrow>
                    Option.bind (print_from t n level (e + 1))
                      (\<lambda>r3. case r3 of
                         Inl err \<Rightarrow> Some (Inl err)
                       | Inr out3 \<Rightarrow> Some (Inr (out1 @ out2 @ out3)))))
      else Some (Inr []))"

declare print_from.simps [code]

definition Print :: "('k, 'v) Tree \<Rightarrow> (error + (nat \<times> 'k) list) option" where
  "Print t =
     (case Root t of
        None \<Rightarrow> Some (Inr [])
      | Some r \<Rightarrow> print_from t r 0 0)"

text \<open>A run of the public operations that change the tree.\<close>

datatype ('k, 'v) op = PutOp 'k 'v | ClearOp

fun run :: "('k, 'v) Tree \<Rightarrow> ('k, 'v) op list \<Rightarrow> (error + ('k, 'v) Tree) option" where
  "run t [] = Some (Inr t)"
| "run t (PutOp k v # ops) =
     (case Put t k v of
        None \<Rightarrow> None
      | Some (Inl e) \<Rightarrow> Some (Inl e)
      | Some (Inr t1) \<Rightarrow> run t1 ops)"
| "run t (ClearOp # ops) = run (Clear t) ops"

text \<open>
  What can be seen of a tree: the entries and the keys of a node, read through its
  slice, and a property of the state that a run of operations reaches.
\<close>

definition entries :: "('k, 'v) Tree \<Rightarrow> nat \<Rightarrow> ('k, 'v) Element option list" where
  "entries t a =
     map (\<lambda>i. arrays t ! arr (Elements (nodes t ! a)) ! (off (Elements (nodes t ! a)) + i))
       [0..<len (Elements (nodes t ! a))]"

definition keys :: "('k, 'v) Tree \<Rightarrow> nat \<Rightarrow> 'k option list" where
  "keys t a = map (map_option Key) (entries t a)"

definition holds_after :: "('k, 'v) Tree \<Rightarrow> ('k, 'v) op list \<Rightarrow> (('k, 'v) Tree \<Rightarrow> bool) \<Rightarrow> bool" where
  "holds_after t ops P = (case run t ops of Some (Inr t1) \<Rightarrow> P t1 | _ \<Rightarrow> False)"

definition puts :: "('k \<times> 'v) list \<Rightarrow> ('k, 'v) op list" where
  "puts kvs = map (\<lambda>(k, v). PutOp k v) kvs"

definition exampleTree :: "(int, string) op list" where
  "exampleTree = puts [(1, ''a''), (2, ''b''), (3, ''c''), (4, ''d''), (5, ''e''),
     (6, ''f''), (7, ''g''), (8, ''h''), (9, ''i'')]"

definition result_of :: "(error + 'a) option \<Rightarrow> 'a" where
  "result_of r = (case r of Some (Inr x) \<Rightarrow> x)"

section \<open>Invariants of the heap\<close>

text \<open>
  What an operation leaves alone: the counter, the branching factor and the
  comparator; and a tree that has a root keeps one.
\<close>

definition frame :: "('k, 'v) Tree \<Rightarrow> ('k, 'v) Tree \<Rightarrow> bool" where
  "frame t t1 =
     (sizeT t1 = sizeT t \<and> mT t1 = mT t \<and> Comparator t1 = Comparator t
      \<and> (Root t \<noteq> None \<longrightarrow> Root t1 \<noteq> None))"

text \<open>
  The shape of a node \<open>a\<close> of the heap, for a height function \<open>h\<close> on the nodes:
  the children of \<open>a\<close> are nodes of the heap, one level below \<open>a\<close>; the parent of
  \<open>a\<close>, if it has one, is a node of the heap, one level above; a node without
  children is at level 0; a node with children has one child more than entries; and
  the length of the entries is within their capacity.
\<close>

definition node_ok :: "Node list \<Rightarrow> (nat \<Rightarrow> nat) \<Rightarrow> nat \<Rightarrow> bool" where
  "node_ok ns h a =
     ((\<forall>c \<in> set (Children (ns ! a)). c < length ns \<and> h a = Suc (h c))
      \<and> (\<forall>p. Parent (ns ! a) = Some p \<longrightarrow> p < length ns \<and> h p = Suc (h a))
      \<and> (Children (ns ! a) = [] \<longrightarrow> h a = 0)
      \<and> (Children (ns ! a) \<noteq> [] \<longrightarrow> length (Children (ns ! a)) = len (Elements (ns ! a)) + 1)
      \<and> len (Elements (ns ! a)) \<le> cap (Elements (ns ! a)))"

definition heap_inv :: "('k, 'v) Tree \<Rightarrow> (nat \<Rightarrow> nat) \<Rightarrow> bool" where
  "heap_inv t h =
     (2 \<le> mT t
      \<and> (\<forall>r. Root t = Some r \<longrightarrow> r < length (nodes t))
      \<and> (\<forall>a < length (nodes t). node_ok (nodes t) h a)
      \<and> growth_ok (growth t))"

text \<open>
  A slice lies within its backing array, and so do all the slices of the nodes of a
  heap: then the cells that the model reads and writes through a slice are cells of
  the array. The arrays of a heap are never freed and never change their length.
\<close>

definition slice_ok :: "'a list list \<Rightarrow> slice \<Rightarrow> bool" where
  "slice_ok as s =
     (arr s < length as \<and> off s + cap s \<le> length (as ! arr s) \<and> len s \<le> cap s)"

definition slices_ok :: "('k, 'v) Tree \<Rightarrow> bool" where
  "slices_ok t = (\<forall>a < length (nodes t). slice_ok (arrays t) (Elements (nodes t ! a)))"

definition arrays_ext :: "'a list list \<Rightarrow> 'a list list \<Rightarrow> bool" where
  "arrays_ext as as1 =
     (length as \<le> length as1 \<and> (\<forall>i < length as. length (as1 ! i) = length (as ! i)))"

text \<open>\<open>at_depth t a d\<close>: the node \<open>a\<close> is reached from the root through \<open>d\<close> child pointers.\<close>

inductive at_depth :: "('k, 'v) Tree \<Rightarrow> nat \<Rightarrow> nat \<Rightarrow> bool" where
  at_root: "Root t = Some r \<Longrightarrow> at_depth t r 0"
| at_child: "at_depth t a d \<Longrightarrow> c \<in> set (Children (nodes t ! a)) \<Longrightarrow> at_depth t c (Suc d)"

section \<open>The counter and the root\<close>

lemma frame_refl: "frame t t" by (simp add: frame_def)
lemma frame_trans: "frame t t1 \<Longrightarrow> frame t1 t2 \<Longrightarrow> frame t t2" by (simp add: frame_def)

lemma shiftElements_frame: "shiftElements t n ipos = Inr t1 \<Longrightarrow> frame t t1"
  by (auto simp: shiftElements_def frame_def split: prod.splits sum.splits)

lemma setElement_frame: "setElement t n ipos v = Inr t1 \<Longrightarrow> frame t t1"
  by (auto simp: setElement_def frame_def split: prod.splits sum.splits)

lemma moveChildren_frame: "moveChildren t n mid l r = Inr t1 \<Longrightarrow> frame t t1"
  by (auto simp: moveChildren_def frame_def Let_def split: if_splits)

lemma insertChildren_frame: "insertChildren t p ipos l r = Inr t1 \<Longrightarrow> frame t t1"
  by (auto simp: insertChildren_def frame_def split: if_splits)

lemma allocHalves_frame: "allocHalves t n mid par le re = Inr t1 \<Longrightarrow> frame t t1"
  by (auto simp: allocHalves_def frame_def split: if_splits dest!: moveChildren_frame)

lemma splitRoot_frame: "splitRoot t = Inr t1 \<Longrightarrow> frame t t1 \<and> Root t1 \<noteq> None"
  by (auto simp: splitRoot_def allocRoot_def frame_def Let_def split: option.splits sum.splits
      dest!: allocHalves_frame)

lemma splitNonRoot_body_frame: "splitNonRoot_body t n = Inr (t1, p) \<Longrightarrow> frame t t1"
  unfolding splitNonRoot_body_def Let_def
  by (auto split: option.splits sum.splits prod.splits
      dest!: allocHalves_frame shiftElements_frame setElement_frame insertChildren_frame
      simp: frame_def)

lemma split_frame_aux:
  assumes "split t n = Some y"
  shows "\<forall>t1. y = Inr t1 \<longrightarrow> frame t t1"
proof (rule split.raw_induct[where P = "\<lambda>t n y. \<forall>t1. y = Inr t1 \<longrightarrow> frame t t1", OF _ assms],
    goal_cases)
  case (1 f t n y)
  show ?case
  proof (cases "shouldSplit t n")
    case False
    with 1(2) show ?thesis by (auto simp: frame_refl)
  next
    case ss: True
    show ?thesis
    proof (cases "isRoot t n")
      case True
      with ss 1(2) show ?thesis by (auto dest: splitRoot_frame)
    next
      case False
      show ?thesis
      proof (cases "splitNonRoot_body t n")
        case (Inl e)
        with ss False 1(2) show ?thesis by auto
      next
        case (Inr tp)
        obtain t2 p where tp: "tp = (t2, p)" by (cases tp)
        from ss False 1(2) Inr tp have "f t2 p = Some y" by simp
        from 1(1)[OF this] have "\<forall>t1. y = Inr t1 \<longrightarrow> frame t2 t1" .
        moreover from Inr tp have "frame t t2" by (auto dest: splitNonRoot_body_frame)
        ultimately show ?thesis by (auto intro: frame_trans)
      qed
    qed
  qed
qed

lemma split_frame: "split t n = Some (Inr t1) \<Longrightarrow> frame t t1"
  using split_frame_aux by blast

lemma insertIntoLeaf_frame: "insertIntoLeaf t n ele = Some (Inr (t1, b)) \<Longrightarrow> frame t t1"
  unfolding insertIntoLeaf_def
  by (auto split: sum.splits prod.splits if_splits option.splits
      dest!: shiftElements_frame setElement_frame split_frame intro: frame_trans)

lemma insert_node_frame_aux:
  assumes "insert_node t n ele = Some y"
  shows "\<forall>t1 b. y = Inr (t1, b) \<longrightarrow> frame t t1"
proof (rule insert_node.raw_induct[where P = "\<lambda>t n ele y. \<forall>t1 b. y = Inr (t1, b) \<longrightarrow> frame t t1",
      OF _ assms], goal_cases)
  case (1 f t n ele y)
  show ?case
  proof (cases "isLeaf t n")
    case True
    with 1(2) show ?thesis by (auto dest: insertIntoLeaf_frame)
  next
    case False
    with 1(2) show ?thesis
      by (auto split: sum.splits prod.splits if_splits dest!: setElement_frame dest: 1(1))
  qed
qed

lemma insert_node_frame: "insert_node t n ele = Some (Inr (t1, b)) \<Longrightarrow> frame t t1"
  using insert_node_frame_aux by blast

lemma Put_frame:
  assumes "Put t k v = Some (Inr t1)"
  shows "Root t1 \<noteq> None \<and> mT t1 = mT t \<and> Comparator t1 = Comparator t
    \<and> (sizeT t1 = sizeT t \<or> sizeT t1 = sizeT t + 1)
    \<and> (Root t = None \<longrightarrow> sizeT t1 = sizeT t + 1)"
proof (cases "Root t")
  case None
  with assms show ?thesis by (auto simp: Put_def)
next
  case (Some r)
  with assms show ?thesis
    by (auto simp: Put_def frame_def split: option.splits sum.splits prod.splits if_splits
        dest!: insert_node_frame)
qed

lemma run_size_root:
  "run t0 ops = Some (Inr t) \<Longrightarrow> 0 \<le> sizeT t0 \<Longrightarrow> (sizeT t0 = 0 \<longleftrightarrow> Root t0 = None)
   \<Longrightarrow> 0 \<le> sizeT t \<and> (sizeT t = 0 \<longleftrightarrow> Root t = None)"
proof (induction ops arbitrary: t0)
  case Nil
  then show ?case by simp
next
  case (Cons x ops)
  show ?case
  proof (cases x)
    case (PutOp k v)
    with Cons.prems(1) obtain t1 where p: "Put t0 k v = Some (Inr t1)" and r: "run t1 ops = Some (Inr t)"
      by (auto split: option.splits sum.splits)
    from Put_frame[OF p] Cons.prems(2,3) have "0 \<le> sizeT t1 \<and> (sizeT t1 = 0 \<longleftrightarrow> Root t1 = None)"
      by auto
    with Cons.IH[OF r] show ?thesis by blast
  next
    case ClearOp
    with Cons.prems(1) have r: "run (Clear t0) ops = Some (Inr t)" by simp
    have "0 \<le> sizeT (Clear t0) \<and> (sizeT (Clear t0) = 0 \<longleftrightarrow> Root (Clear t0) = None)"
      by (simp add: Clear_def)
    with Cons.IH[OF r] show ?thesis by blast
  qed
qed

text \<open>
  C10. In every state that a run of \<open>Put\<close> and \<open>Clear\<close> reaches from a new tree, the
  counter is 0 exactly when the root is nil, so \<open>Empty\<close> holds exactly when the
  tree has no root. This holds for every branching factor and whatever capacity
  \<open>append\<close> gives a reallocated slice: there is no condition on the growth rule \<open>g\<close>.
\<close>

theorem C10_size_zero_iff_no_root:
  "run (New_on g m0) ops = Some (Inr t) \<Longrightarrow>
     (sizeT t = 0 \<longleftrightarrow> Root t = None) \<and> (Empty t \<longleftrightarrow> Root t = None)"
  using run_size_root[of "New_on g m0" ops t] by (simp add: New_on_def Empty_def)

lemma holds_afterD:
  "holds_after t ops P \<Longrightarrow> run t ops = Some (Inr (result_of (run t ops))) \<and> P (result_of (run t ops))"
  by (auto simp: holds_after_def result_of_def split: option.splits sum.splits)

theorem C10_witness:
  "run (New_on growcap 5) exampleTree = Some (Inr (result_of (run (New_on growcap 5) exampleTree)))
   \<and> \<not> (sizeT (result_of (run (New_on growcap 5) exampleTree)) = 0)
   \<and> \<not> (Root (result_of (run (New_on growcap 5) exampleTree)) = None)
   \<and> \<not> Empty (result_of (run (New_on growcap 5) exampleTree))"
proof -
  have "holds_after (New_on growcap 5) exampleTree (\<lambda>t. sizeT t \<noteq> 0)"
    unfolding exampleTree_def by code_simp
  from holds_afterD[OF this]
  have r: "run (New_on growcap 5) exampleTree = Some (Inr (result_of (run (New_on growcap 5) exampleTree)))"
    and s: "sizeT (result_of (run (New_on growcap 5) exampleTree)) \<noteq> 0" by blast+
  from C10_size_zero_iff_no_root[OF r] s r show ?thesis by simp
qed

section \<open>Index ranges and the shape of the heap\<close>

subsection \<open>search\<close>

lemma go_div_2: "0 \<le> x \<Longrightarrow> go_div x 2 = x div 2"
  by (simp add: go_div_def sgn_if)

lemma search_loop_range:
  "0 \<le> lo \<Longrightarrow> lo \<le> hi + 1 \<Longrightarrow> hi < int (len s) \<Longrightarrow>
   search_loop t s key lo hi \<noteq> Inl IndexOutOfRange \<and>
   (\<forall>i f. search_loop t s key lo hi = Inr (i, f) \<longrightarrow> lo \<le> i \<and> i \<le> hi + 1 \<and> (f \<longrightarrow> i \<le> hi))"
proof (induction t s key lo hi rule: search_loop.induct)
  case (1 t s key lo hi)
  show ?case
  proof (cases "lo \<le> hi")
    case False
    with "1.prems" show ?thesis by (subst search_loop.simps, subst (2) search_loop.simps) simp
  next
    case True
    define mid where "mid = go_div (lo + hi) 2"
    from True "1.prems" have mid: "mid = (lo + hi) div 2" "lo \<le> mid" "mid \<le> hi"
      by (simp_all add: mid_def go_div_2)
    with "1.prems" have get: "cell_get (arrays t) s mid = Inr (arrays t ! arr s ! (off s + nat mid))"
      by (simp add: cell_get_def)
    show ?thesis
    proof (cases "arrays t ! arr s ! (off s + nat mid)")
      case None
      with True get show ?thesis
        by (subst search_loop.simps, subst (2) search_loop.simps) (simp add: mid_def)
    next
      case (Some x)
      consider (eq) "Comparator t key (Key x) = 0"
        | (gt) "Comparator t key (Key x) \<noteq> 0" "Comparator t key (Key x) > 0"
        | (lt) "Comparator t key (Key x) \<noteq> 0" "\<not> Comparator t key (Key x) > 0"
        by blast
      then show ?thesis
      proof cases
        case eq
        with True get Some mid show ?thesis
          by (subst search_loop.simps, subst (2) search_loop.simps) (simp add: mid_def)
      next
        case gt
        have eq: "search_loop t s key lo hi = search_loop t s key (mid + 1) hi"
          using True get Some gt by (subst search_loop.simps) (simp add: mid_def)
        have "search_loop t s key (mid + 1) hi \<noteq> Inl IndexOutOfRange \<and>
          (\<forall>i f. search_loop t s key (mid + 1) hi = Inr (i, f) \<longrightarrow>
             mid + 1 \<le> i \<and> i \<le> hi + 1 \<and> (f \<longrightarrow> i \<le> hi))"
          unfolding mid_def
          using True get Some gt mid "1.prems"
          by (intro "1.IH"(1)[of "Some x" x]) (simp_all add: mid_def)
        with eq mid show ?thesis by force
      next
        case lt
        have eq: "search_loop t s key lo hi = search_loop t s key lo (mid - 1)"
          using True get Some lt by (subst search_loop.simps) (simp add: mid_def)
        have "search_loop t s key lo (mid - 1) \<noteq> Inl IndexOutOfRange \<and>
          (\<forall>i f. search_loop t s key lo (mid - 1) = Inr (i, f) \<longrightarrow>
             lo \<le> i \<and> i \<le> mid - 1 + 1 \<and> (f \<longrightarrow> i \<le> mid - 1))"
          unfolding mid_def
          using True get Some lt mid "1.prems"
          by (intro "1.IH"(2)[of "Some x" x]) (simp_all add: mid_def)
        with eq mid show ?thesis by force
      qed
    qed
  qed
qed

lemma search_range:
  "search t (Some a) key \<noteq> Inl IndexOutOfRange \<and>
   (\<forall>i f. search t (Some a) key = Inr (i, f) \<longrightarrow>
      0 \<le> i \<and> i \<le> int (len (Elements (nodes t ! a))) \<and> (f \<longrightarrow> i < int (len (Elements (nodes t ! a)))))"
  using search_loop_range[of 0 "int (len (Elements (nodes t ! a))) - 1" "Elements (nodes t ! a)" t key]
  by (simp add: search_def)

lemma search_None: "search t None key = Inr (0, False)"
  by (simp add: search_def)

lemma search_cases:
  obtains (nil) "search t (Some a) key = Inl NilDereference"
  | (pos) i f where "search t (Some a) key = Inr (i, f)" "0 \<le> i"
      "i \<le> int (len (Elements (nodes t ! a)))" "f \<Longrightarrow> i < int (len (Elements (nodes t ! a)))"
proof (cases "search t (Some a) key")
  case (Inl e)
  with search_range[of t a key] have "e = NilDereference" by (cases e) auto
  with Inl nil show ?thesis by simp
next
  case (Inr r)
  obtain i f where "r = (i, f)" by (cases r)
  with Inr search_range[of t a key] pos show ?thesis by blast
qed

subsection \<open>Slices\<close>

lemma growth_okD: "growth_ok g \<Longrightarrow> needed \<le> g old needed"
  by (simp add: growth_ok_def)

lemma growcap_ok: "growth_ok growcap"
  by (simp add: growth_ok_def growcap_def)

lemma slice_append_len:
  "slice_append g as s v = (as1, s1) \<Longrightarrow>
   len s1 = len s + 1 \<and> (growth_ok g \<longrightarrow> len s \<le> cap s \<longrightarrow> len s1 \<le> cap s1)"
  using growth_okD[of g "len s + 1" "cap s"]
  by (auto simp: slice_append_def split: if_splits)

lemma shiftElements_Inr:
  assumes "shiftElements t n ipos = Inr t1"
  shows "\<exists>s1. nodes t1 = (nodes t)[n := (nodes t ! n)\<lparr>Elements := s1\<rparr>]
           \<and> len s1 = len (Elements (nodes t ! n)) + 1
           \<and> (growth_ok (growth t) \<longrightarrow> len (Elements (nodes t ! n)) \<le> cap (Elements (nodes t ! n))
                \<longrightarrow> len s1 \<le> cap s1)"
    and "Root t1 = Root t" and "mT t1 = mT t" and "growth t1 = growth t"
  using assms
  by (auto simp: shiftElements_def split: prod.splits sum.splits dest!: slice_append_len)

lemma shiftElements_ok:
  assumes "0 \<le> ipos" "ipos \<le> int (len (Elements (nodes t ! n)))"
  shows "\<exists>t1. shiftElements t n ipos = Inr t1"
proof -
  obtain as1 s1 where a: "slice_append (growth t) (arrays t) (Elements (nodes t ! n)) None = (as1, s1)"
    by (cases "slice_append (growth t) (arrays t) (Elements (nodes t ! n)) None")
  from slice_append_len[OF a] assms show ?thesis
    by (simp add: shiftElements_def a slice_lo_def)
qed

lemma setElement_Inr:
  assumes "setElement t n ipos v = Inr t1"
  shows "nodes t1 = nodes t" and "Root t1 = Root t" and "mT t1 = mT t" and "growth t1 = growth t"
  using assms by (auto simp: setElement_def split: sum.splits)

lemma setElement_ok:
  assumes "0 \<le> ipos" "ipos < int (len (Elements (nodes t ! n)))"
  shows "\<exists>t1. setElement t n ipos v = Inr t1"
  using assms by (simp add: setElement_def cell_set_def)

subsection \<open>New parents\<close>

lemma reparent_length [simp]: "length (reparent ns cs p) = length ns"
  unfolding reparent_def by (induction cs arbitrary: ns) simp_all

lemma reparent_Cons: "reparent ns (c # cs) p = reparent (ns[c := (ns ! c)\<lparr>Parent := Some p\<rparr>]) cs p"
  by (simp add: reparent_def)

lemma reparent_Nil [simp]: "reparent ns [] p = ns"
  by (simp add: reparent_def)

lemma reparent_Children [simp]: "Children (reparent ns cs p ! a) = Children (ns ! a)"
proof (induction cs arbitrary: ns)
  case Nil
  show ?case by simp
next
  case (Cons c cs)
  show ?case
    by (cases "c < length ns") (simp_all add: reparent_Cons Cons.IH nth_list_update list_update_beyond)
qed

lemma reparent_Elements [simp]: "Elements (reparent ns cs p ! a) = Elements (ns ! a)"
proof (induction cs arbitrary: ns)
  case Nil
  show ?case by simp
next
  case (Cons c cs)
  show ?case
    by (cases "c < length ns") (simp_all add: reparent_Cons Cons.IH nth_list_update list_update_beyond)
qed

lemma reparent_Parent:
  "a < length ns \<Longrightarrow>
   Parent (reparent ns cs p ! a) = (if a \<in> set cs then Some p else Parent (ns ! a))"
proof (induction cs arbitrary: ns)
  case Nil
  show ?case by simp
next
  case (Cons c cs)
  then show ?case
    by (cases "a = c") (simp_all add: reparent_Cons)
qed

subsection \<open>Keeping the shape of a node\<close>

lemma heap_invD:
  assumes "heap_inv t h"
  shows "2 \<le> mT t" and "\<And>r. Root t = Some r \<Longrightarrow> r < length (nodes t)"
    and "\<And>a. a < length (nodes t) \<Longrightarrow> node_ok (nodes t) h a"
    and "growth_ok (growth t)"
  using assms by (auto simp: heap_inv_def)

lemma heap_inv_cong:
  "mT t1 = mT t \<Longrightarrow> Root t1 = Root t \<Longrightarrow> nodes t1 = nodes t \<Longrightarrow> growth t1 = growth t \<Longrightarrow>
   heap_inv t h \<Longrightarrow> heap_inv t1 h"
  by (simp add: heap_inv_def)

lemma node_ok_child:
  "node_ok ns h a \<Longrightarrow> c \<in> set (Children (ns ! a)) \<Longrightarrow> c < length ns \<and> h a = Suc (h c)"
  by (simp add: node_ok_def)

lemma node_ok_parent:
  "node_ok ns h a \<Longrightarrow> Parent (ns ! a) = Some p \<Longrightarrow> p < length ns \<and> h p = Suc (h a)"
  by (simp add: node_ok_def)

lemma node_ok_leaf: "node_ok ns h a \<Longrightarrow> Children (ns ! a) = [] \<Longrightarrow> h a = 0"
  by (simp add: node_ok_def)

lemma node_ok_inner:
  "node_ok ns h a \<Longrightarrow> Children (ns ! a) \<noteq> [] \<Longrightarrow>
   length (Children (ns ! a)) = len (Elements (ns ! a)) + 1"
  by (simp add: node_ok_def)

lemma node_ok_cap: "node_ok ns h a \<Longrightarrow> len (Elements (ns ! a)) \<le> cap (Elements (ns ! a))"
  by (simp add: node_ok_def)

text \<open>A node whose children and entries stay, in a heap that grows.\<close>

lemma node_ok_transfer:
  assumes ok: "node_ok ns h a"
    and len: "length ns \<le> length ns1"
    and ch: "Children (ns1 ! a) = Children (ns ! a)"
    and el: "len (Elements (ns1 ! a)) = len (Elements (ns ! a))"
            "cap (Elements (ns1 ! a)) = cap (Elements (ns ! a))"
    and ha: "h1 a = h a"
    and hc: "\<And>c. c \<in> set (Children (ns ! a)) \<Longrightarrow> h1 c = h c"
    and pa: "\<And>p. Parent (ns1 ! a) = Some p \<Longrightarrow> p < length ns1 \<and> h1 p = Suc (h a)"
  shows "node_ok ns1 h1 a"
  unfolding node_ok_def
proof (intro conjI ballI allI impI)
  fix c assume "c \<in> set (Children (ns1 ! a))"
  with ch have c: "c \<in> set (Children (ns ! a))" by simp
  from node_ok_child[OF ok c] len show "c < length ns1" by simp
  from node_ok_child[OF ok c] hc[OF c] ha show "h1 a = Suc (h1 c)" by simp
next
  fix p assume "Parent (ns1 ! a) = Some p"
  from pa[OF this] ha show "p < length ns1" "h1 p = Suc (h1 a)" by simp_all
next
  assume "Children (ns1 ! a) = []"
  with ch ok ha show "h1 a = 0" by (simp add: node_ok_def)
next
  assume "Children (ns1 ! a) \<noteq> []"
  with ch ok el show "length (Children (ns1 ! a)) = len (Elements (ns1 ! a)) + 1"
    by (simp add: node_ok_def)
next
  from ok el show "len (Elements (ns1 ! a)) \<le> cap (Elements (ns1 ! a))"
    by (simp add: node_ok_def)
qed

subsection \<open>The two halves of a split\<close>

lemma moveChildren_Inr:
  assumes "0 \<le> mid + 1" "mid + 1 \<le> int (length (Children (nodes t ! n)))"
  shows "moveChildren t n mid l r =
     Inr (t\<lparr>nodes := reparent (reparent
        (((nodes t)[l := (nodes t ! l)\<lparr>Children := take (nat (mid + 1)) (Children (nodes t ! n))\<rparr>])
           [r := (((nodes t)[l := (nodes t ! l)\<lparr>Children := take (nat (mid + 1)) (Children (nodes t ! n))\<rparr>]) ! r)
                   \<lparr>Children := drop (nat (mid + 1)) (Children (nodes t ! n))\<rparr>])
        (take (nat (mid + 1)) (Children (nodes t ! n))) l)
        (drop (nat (mid + 1)) (Children (nodes t ! n))) r\<rparr>)"
  using assms by (simp add: moveChildren_def Let_def)

lemma halves_inv:
  fixes t :: "('k, 'v) Tree"
  assumes inv: "heap_inv t h" and n: "n < length (nodes t)"
    and par: "\<And>p. par = Some p \<Longrightarrow> p < length (nodes t) \<and> h p = Suc (h n)"
    and le: "len le = nat mid" "len le \<le> cap le"
    and re: "len re + nat (mid + 1) = len (Elements (nodes t ! n))" "len re \<le> cap re"
    and mid: "0 \<le> mid"
  defines "h1 \<equiv> h(length (nodes t) := h n, Suc (length (nodes t)) := h n)"
  shows "\<exists>t2. allocHalves t n mid par le re = Inr t2
      \<and> heap_inv t2 h1 \<and> length (nodes t2) = length (nodes t) + 2
      \<and> arrays t2 = arrays t \<and> Root t2 = Root t \<and> mT t2 = mT t
      \<and> (\<forall>a < length (nodes t). Elements (nodes t2 ! a) = Elements (nodes t ! a)
                                 \<and> Children (nodes t2 ! a) = Children (nodes t ! a))"
proof -
  let ?N = "length (nodes t)"
  let ?ns = "nodes t"
  let ?cs = "Children (?ns ! n)"
  let ?L0 = "\<lparr>Parent = par, Children = [], Elements = le\<rparr>"
  let ?R0 = "\<lparr>Parent = par, Children = [], Elements = re\<rparr>"
  define t1 where "t1 = t\<lparr>nodes := nodes t @ [?L0, ?R0]\<rparr>"
  have alloc: "allocHalves t n mid par le re =
      (if \<not> isLeaf t1 n then moveChildren t1 n mid ?N (?N + 1) else Inr t1)"
    by (simp add: allocHalves_def t1_def)
  note ok = heap_invD(3)[OF inv]
  have okn: "node_ok ?ns h n" using ok n .
  have old: "\<And>a. a < ?N \<Longrightarrow> h1 a = h a" by (simp add: h1_def)
  have hL: "h1 ?N = h n" and hR: "h1 (Suc ?N) = h n" by (simp_all add: h1_def)
  have n1: "nodes t1 ! n = ?ns ! n" using n by (simp add: t1_def nth_append)
  have len1: "length (nodes t1) = ?N + 2" by (simp add: t1_def)
  have child_lt: "\<And>c. c \<in> set ?cs \<Longrightarrow> c < ?N" using node_ok_child[OF okn] by blast
  have child_h: "\<And>c. c \<in> set ?cs \<Longrightarrow> h n = Suc (h c)" using node_ok_child[OF okn] by blast
  have base: "2 \<le> mT t" "\<And>r. Root t = Some r \<Longrightarrow> r < ?N" "growth_ok (growth t)"
    using heap_invD(1,2,4)[OF inv] by blast+
  show ?thesis
  proof (cases "?cs = []")
    case True
    then have leaf: "isLeaf t1 n" by (simp add: isLeaf_def n1)
    have hn0: "h n = 0" using node_ok_leaf[OF okn True] .
    have "node_ok (nodes t1) h1 a" if a: "a < ?N + 2" for a
    proof -
      consider "a < ?N" | "a = ?N" | "a = Suc ?N" using a by linarith
      then show ?thesis
      proof cases
        case 1
        show ?thesis
        proof (rule node_ok_transfer[OF ok[OF 1]])
          show "length ?ns \<le> length (nodes t1)" by (simp add: t1_def)
          show "Children (nodes t1 ! a) = Children (?ns ! a)" using 1 by (simp add: t1_def nth_append)
          show "len (Elements (nodes t1 ! a)) = len (Elements (?ns ! a))"
            "cap (Elements (nodes t1 ! a)) = cap (Elements (?ns ! a))"
            using 1 by (simp_all add: t1_def nth_append)
          show "h1 a = h a" using 1 by (rule old)
          show "h1 c = h c" if "c \<in> set (Children (?ns ! a))" for c
            using node_ok_child[OF ok[OF 1] that] by (simp add: old)
          show "p < length (nodes t1) \<and> h1 p = Suc (h a)" if "Parent (nodes t1 ! a) = Some p" for p
          proof -
            from that 1 have "Parent (?ns ! a) = Some p" by (simp add: t1_def nth_append)
            from node_ok_parent[OF ok[OF 1] this] show ?thesis by (simp add: old len1)
          qed
        qed
      next
        case 2
        then have "nodes t1 ! a = ?L0" by (simp add: t1_def nth_append)
        with 2 par le hn0 show ?thesis
          by (auto simp: node_ok_def hL old len1)
      next
        case 3
        then have "nodes t1 ! a = ?R0" by (simp add: t1_def nth_append)
        with 3 par re hn0 show ?thesis
          by (auto simp: node_ok_def hR old len1)
      qed
    qed
    with base have "heap_inv t1 h1"
      by (auto simp: heap_inv_def len1) (auto simp: t1_def)
    moreover have "\<forall>a < ?N. Elements (nodes t1 ! a) = Elements (?ns ! a)
        \<and> Children (nodes t1 ! a) = Children (?ns ! a)"
      by (simp add: t1_def nth_append)
    ultimately show ?thesis using leaf len1
      by (intro exI[of _ t1]) (simp add: alloc, simp add: t1_def)
  next
    case False
    then have nleaf: "\<not> isLeaf t1 n" by (simp add: isLeaf_def n1)
    have lcs: "length ?cs = len (Elements (?ns ! n)) + 1" using node_ok_inner[OF okn False] .
    define k where "k = nat (mid + 1)"
    have k: "k = nat mid + 1" "k \<le> len (Elements (?ns ! n))" "0 \<le> mid + 1"
      "mid + 1 \<le> int (length (Children (nodes t1 ! n)))"
      using mid re lcs by (simp_all add: k_def n1 nat_add_distrib)
    define lc where "lc = take k ?cs"
    define rc where "rc = drop k ?cs"
    have llc: "length lc = nat mid + 1" using k lcs by (simp add: lc_def)
    have lrc: "length rc = len re + 1" using k lcs re by (simp add: rc_def k_def)
    have lc_sub: "set lc \<subseteq> set ?cs" by (simp add: lc_def set_take_subset)
    have rc_sub: "set rc \<subseteq> set ?cs" by (simp add: rc_def set_drop_subset)
    define ns3 where "ns3 = ((nodes t1)[?N := (nodes t1 ! ?N)\<lparr>Children := lc\<rparr>])
           [Suc ?N := (((nodes t1)[?N := (nodes t1 ! ?N)\<lparr>Children := lc\<rparr>]) ! Suc ?N)\<lparr>Children := rc\<rparr>]"
    define t2 where "t2 = t1\<lparr>nodes := reparent (reparent ns3 lc ?N) rc (Suc ?N)\<rparr>"
    have mv: "moveChildren t1 n mid ?N (?N + 1) = Inr t2"
      using moveChildren_Inr[OF k(3,4), of ?N "?N + 1"]
      by (simp add: t2_def ns3_def lc_def rc_def k_def n1)
    have len3: "length ns3 = ?N + 2" by (simp add: ns3_def t1_def)
    have len2: "length (nodes t2) = ?N + 2" by (simp add: t2_def len3)
    have ns3_old: "ns3 ! a = ?ns ! a" if "a < ?N" for a
      using that by (simp add: ns3_def t1_def nth_append)
    have ns3_L: "ns3 ! ?N = \<lparr>Parent = par, Children = lc, Elements = le\<rparr>"
      by (simp add: ns3_def t1_def nth_append)
    have ns3_R: "ns3 ! Suc ?N = \<lparr>Parent = par, Children = rc, Elements = re\<rparr>"
      by (simp add: ns3_def t1_def nth_append)
    have ch2: "Children (nodes t2 ! a) = Children (ns3 ! a)" for a by (simp add: t2_def)
    have el2: "Elements (nodes t2 ! a) = Elements (ns3 ! a)" for a by (simp add: t2_def)
    have pa2: "Parent (nodes t2 ! a) =
        (if a \<in> set rc then Some (Suc ?N) else if a \<in> set lc then Some ?N else Parent (ns3 ! a))"
      if "a < ?N + 2" for a
      using that by (simp add: t2_def reparent_Parent len3)
    have lt: "x < ?N" if "x \<in> set lc \<union> set rc" for x
      using that lc_sub rc_sub child_lt by blast
    have notin: "?N \<notin> set lc" "?N \<notin> set rc" "Suc ?N \<notin> set lc" "Suc ?N \<notin> set rc"
      using lt[of ?N] lt[of "Suc ?N"] by auto
    have "node_ok (nodes t2) h1 a" if a: "a < ?N + 2" for a
    proof -
      consider "a < ?N" | "a = ?N" | "a = Suc ?N" using a by linarith
      then show ?thesis
      proof cases
        case 1
        show ?thesis
        proof (rule node_ok_transfer[OF ok[OF 1]])
          show "length ?ns \<le> length (nodes t2)" by (simp add: len2)
          show "Children (nodes t2 ! a) = Children (?ns ! a)" using 1 by (simp add: ch2 ns3_old)
          show "len (Elements (nodes t2 ! a)) = len (Elements (?ns ! a))"
            "cap (Elements (nodes t2 ! a)) = cap (Elements (?ns ! a))"
            using 1 by (simp_all add: el2 ns3_old)
          show "h1 a = h a" using 1 by (rule old)
          show "h1 c = h c" if "c \<in> set (Children (?ns ! a))" for c
            using node_ok_child[OF ok[OF 1] that] by (simp add: old)
          show "p < length (nodes t2) \<and> h1 p = Suc (h a)" if pp: "Parent (nodes t2 ! a) = Some p" for p
          proof -
            consider (r) "a \<in> set rc" | (l) "a \<notin> set rc" "a \<in> set lc" | (o) "a \<notin> set rc" "a \<notin> set lc"
              by blast
            then show ?thesis
            proof cases
              case r
              with pp a have "p = Suc ?N" by (simp add: pa2)
              moreover from r rc_sub have "h n = Suc (h a)" by (auto dest: child_h)
              ultimately show ?thesis by (simp add: len2 hR)
            next
              case l
              with pp a have "p = ?N" by (simp add: pa2)
              moreover from l lc_sub have "h n = Suc (h a)" by (auto dest: child_h)
              ultimately show ?thesis by (simp add: len2 hL)
            next
              case o
              with pp a 1 have "Parent (?ns ! a) = Some p" by (simp add: pa2 ns3_old)
              from node_ok_parent[OF ok[OF 1] this] show ?thesis by (simp add: old len2)
            qed
          qed
        qed
      next
        case 2
        have f: "Children (nodes t2 ! a) = lc" "Elements (nodes t2 ! a) = le" "Parent (nodes t2 ! a) = par"
          using 2 notin by (simp_all add: ch2 el2 pa2 ns3_L)
        have lcne: "lc \<noteq> []" using llc by auto
        show ?thesis
          unfolding node_ok_def f
        proof (intro conjI ballI allI impI)
          fix c assume "c \<in> set lc"
          with lc_sub have c: "c \<in> set ?cs" by blast
          from child_lt[OF c] show "c < length (nodes t2)" by (simp add: len2)
          from child_lt[OF c] child_h[OF c] show "h1 a = Suc (h1 c)" by (simp add: 2 hL old)
        next
          fix p assume "par = Some p"
          from par[OF this] show "p < length (nodes t2)" "h1 p = Suc (h1 a)"
            by (simp_all add: len2 2 hL old)
        next
          assume "lc = []" with lcne show "h1 a = 0" by simp
        next
          show "length lc = len le + 1" using llc le by simp
        next
          show "len le \<le> cap le" by fact
        qed
      next
        case 3
        have f: "Children (nodes t2 ! a) = rc" "Elements (nodes t2 ! a) = re" "Parent (nodes t2 ! a) = par"
          using 3 notin by (simp_all add: ch2 el2 pa2 ns3_R)
        have rcne: "rc \<noteq> []" using lrc by auto
        show ?thesis
          unfolding node_ok_def f
        proof (intro conjI ballI allI impI)
          fix c assume "c \<in> set rc"
          with rc_sub have c: "c \<in> set ?cs" by blast
          from child_lt[OF c] show "c < length (nodes t2)" by (simp add: len2)
          from child_lt[OF c] child_h[OF c] show "h1 a = Suc (h1 c)" by (simp add: 3 hR old)
        next
          fix p assume "par = Some p"
          from par[OF this] show "p < length (nodes t2)" "h1 p = Suc (h1 a)"
            by (simp_all add: len2 3 hR old)
        next
          assume "rc = []" with rcne show "h1 a = 0" by simp
        next
          show "length rc = len re + 1" by fact
        next
          show "len re \<le> cap re" by fact
        qed
      qed
    qed
    with base have "heap_inv t2 h1"
      by (auto simp: heap_inv_def len2) (auto simp: t2_def t1_def)
    moreover have "\<forall>a < ?N. Elements (nodes t2 ! a) = Elements (?ns ! a)
        \<and> Children (nodes t2 ! a) = Children (?ns ! a)"
      by (simp add: ch2 el2 ns3_old)
    ultimately show ?thesis using nleaf mv len2
      by (intro exI[of _ t2]) (simp add: alloc, simp add: t2_def t1_def)
  qed
qed

subsection \<open>Promotion into the parent\<close>

lemma promote_inv:
  fixes t :: "('k, 'v) Tree"
  assumes inv: "heap_inv t h" and p: "p < length (nodes t)"
    and l: "l < length (nodes t)" and r: "r < length (nodes t)"
    and hl: "h p = Suc (h l)" and hr: "h p = Suc (h r)"
    and i: "0 \<le> ipos" "ipos \<le> int (len (Elements (nodes t ! p)))"
  shows "\<exists>t3. shiftElements t p ipos = Inr t3
      \<and> (\<forall>a. len (Elements (nodes t ! a)) \<le> len (Elements (nodes t3 ! a)))
      \<and> (\<forall>v. \<exists>t4. setElement t3 p ipos v = Inr t4
            \<and> (\<exists>t5. insertChildren t4 p ipos l r = Inr t5 \<and> heap_inv t5 h
                  \<and> length (nodes t5) = length (nodes t)))"
proof -
  let ?ns = "nodes t"
  let ?cs = "Children (?ns ! p)"
  note ok = heap_invD(3)[OF inv]
  have okp: "node_ok ?ns h p" using ok p .
  have ne: "?cs \<noteq> []" using node_ok_leaf[OF okp] hl by auto
  have lcs: "length ?cs = len (Elements (?ns ! p)) + 1" using node_ok_inner[OF okp ne] .
  obtain t3 where t3: "shiftElements t p ipos = Inr t3"
    using shiftElements_ok[OF i] by blast
  from shiftElements_Inr[OF t3] obtain s1 where
    n3: "nodes t3 = ?ns[p := (?ns ! p)\<lparr>Elements := s1\<rparr>]"
    and ls1: "len s1 = len (Elements (?ns ! p)) + 1"
    and cs1: "len s1 \<le> cap s1"
    and r3: "Root t3 = Root t" and m3: "mT t3 = mT t" and g3: "growth t3 = growth t"
    using node_ok_cap[OF okp] heap_invD(4)[OF inv] by blast
  have mono: "len (Elements (?ns ! a)) \<le> len (Elements (nodes t3 ! a))" for a
    using p ls1 by (cases "a = p") (simp_all add: n3)
  have "\<exists>t4. setElement t3 p ipos v = Inr t4
        \<and> (\<exists>t5. insertChildren t4 p ipos l r = Inr t5 \<and> heap_inv t5 h
              \<and> length (nodes t5) = length ?ns)" for v
  proof -
    have "ipos < int (len (Elements (nodes t3 ! p)))" using p i ls1 by (simp add: n3)
    from setElement_ok[OF i(1) this] obtain t4 where t4: "setElement t3 p ipos v = Inr t4"
      by blast
    note f4 = setElement_Inr[OF t4]
    have c4: "Children (nodes t4 ! p) = ?cs" using p by (simp add: f4 n3)
    define cs5 where "cs5 = take (nat ipos) ?cs @ [l, r] @ drop (nat ipos + 1) ?cs"
    define t5 where "t5 = t4\<lparr>nodes := (nodes t4)[p := (nodes t4 ! p)\<lparr>Children := cs5\<rparr>]\<rparr>"
    have t5: "insertChildren t4 p ipos l r = Inr t5"
      using i lcs by (simp add: insertChildren_def c4 t5_def cs5_def)
    have n5: "nodes t5 = ?ns[p := (?ns ! p)\<lparr>Elements := s1, Children := cs5\<rparr>]"
      using p by (simp add: t5_def f4 n3)
    have len5: "length (nodes t5) = length ?ns" by (simp add: n5)
    have set5: "set cs5 \<subseteq> set ?cs \<union> {l, r}"
      using set_take_subset[of "nat ipos" ?cs] set_drop_subset[of "nat ipos + 1" ?cs]
      by (auto simp: cs5_def)
    have l5: "length cs5 = len s1 + 1" using i lcs ls1 by (simp add: cs5_def)
    have "node_ok (nodes t5) h a" if a: "a < length ?ns" for a
    proof (cases "a = p")
      case False
      then have same: "nodes t5 ! a = ?ns ! a" by (simp add: n5)
      show ?thesis
        by (rule node_ok_transfer[OF ok[OF a]])
          (use node_ok_parent[OF ok[OF a]] in \<open>simp_all add: same len5\<close>)
    next
      case True
      have f: "Children (nodes t5 ! a) = cs5" "Elements (nodes t5 ! a) = s1"
        "Parent (nodes t5 ! a) = Parent (?ns ! p)"
        using p True by (simp_all add: n5)
      show ?thesis
        unfolding node_ok_def f
      proof (intro conjI ballI allI impI)
        fix c assume "c \<in> set cs5"
        with set5 consider "c \<in> set ?cs" | "c = l" | "c = r" by blast
        then have "c < length ?ns \<and> h p = Suc (h c)"
        proof cases
          case 1
          from node_ok_child[OF okp 1] show ?thesis .
        next
          case 2
          with l hl show ?thesis by simp
        next
          case 3
          with r hr show ?thesis by simp
        qed
        then show "c < length (nodes t5)" "h a = Suc (h c)"
          using True by (simp_all add: len5)
      next
        fix q assume "Parent (?ns ! p) = Some q"
        from node_ok_parent[OF okp this] show "q < length (nodes t5)" "h q = Suc (h a)"
          using True by (simp_all add: len5)
      next
        assume "cs5 = []" then show "h a = 0" by (simp add: cs5_def)
      next
        show "length cs5 = len s1 + 1" by fact
      next
        show "len s1 \<le> cap s1" by fact
      qed
    qed
    with heap_invD(1,2,4)[OF inv] have "heap_inv t5 h"
      by (auto simp: heap_inv_def len5) (auto simp: t5_def f4 r3 m3 g3)
    with t4 t5 len5 show ?thesis by blast
  qed
  with t3 mono show ?thesis by blast
qed

subsection \<open>splitNonRoot and splitRoot\<close>

lemma mid_bounds:
  assumes "2 \<le> (m0::int)"
  shows "0 \<le> go_div (m0 - 1) 2" and "go_div (m0 - 1) 2 + 1 \<le> m0"
  using assms by (simp_all add: go_div_2)

lemma splitNonRoot_body_inv_rank:
  fixes t :: "('k, 'v) Tree"
  assumes inv: "heap_inv t h" and n: "n < length (nodes t)" and ss: "shouldSplit t n"
  shows "splitNonRoot_body t n = Inl NilDereference
    \<or> (\<exists>t5 p. splitNonRoot_body t n = Inr (t5, p)
          \<and> heap_inv t5 (h(length (nodes t) := h n, Suc (length (nodes t)) := h n))
          \<and> length (nodes t5) = length (nodes t) + 2
          \<and> p < length (nodes t) \<and> h p = Suc (h n))"
proof -
  let ?N = "length (nodes t)"
  let ?E = "Elements (nodes t ! n)"
  let ?par = "Parent (nodes t ! n)"
  define mid where "mid = go_div (mT t - 1) 2"
  note ok = heap_invD(3)[OF inv]
  have okn: "node_ok (nodes t) h n" using ok n .
  have m: "0 \<le> mid" "mid + 1 \<le> int (len ?E)"
    using mid_bounds[OF heap_invD(1)[OF inv]] ss
    by (simp_all add: mid_def shouldSplit_def maxElements_def)
  have capE: "len ?E \<le> cap ?E" using node_ok_cap[OF okn] .
  define le where "le = ?E\<lparr>len := nat mid\<rparr>"
  define re where "re = ?E\<lparr>off := off ?E + nat (mid + 1), len := len ?E - nat (mid + 1),
                            cap := cap ?E - nat (mid + 1)\<rparr>"
  have e1: "slice_hi ?E mid = Inr le" using m capE by (simp add: slice_hi_def le_def)
  have e2: "slice_lo ?E (mid + 1) = Inr re" using m by (simp add: slice_lo_def re_def)
  define h1 where "h1 = h(?N := h n, Suc ?N := h n)"
  have "\<exists>t2. allocHalves t n mid ?par le re = Inr t2
      \<and> heap_inv t2 h1 \<and> length (nodes t2) = ?N + 2
      \<and> arrays t2 = arrays t \<and> Root t2 = Root t \<and> mT t2 = mT t
      \<and> (\<forall>a < ?N. Elements (nodes t2 ! a) = Elements (nodes t ! a)
                    \<and> Children (nodes t2 ! a) = Children (nodes t ! a))"
    unfolding h1_def
  proof (rule halves_inv[OF inv n])
    show "p < ?N \<and> h p = Suc (h n)" if "?par = Some p" for p
      using node_ok_parent[OF okn that] .
    show "len le = nat mid" by (simp add: le_def)
    show "len le \<le> cap le" using m capE by (simp add: le_def)
    show "len re + nat (mid + 1) = len ?E" using m by (simp add: re_def)
    show "len re \<le> cap re" using capE by (simp add: re_def)
    show "0 \<le> mid" by fact
  qed
  then obtain t2 where e3: "allocHalves t n mid ?par le re = Inr t2"
    and inv2: "heap_inv t2 h1" and len2: "length (nodes t2) = ?N + 2"
    and el2: "\<And>a. a < ?N \<Longrightarrow> Elements (nodes t2 ! a) = Elements (nodes t ! a)"
    and ch2: "\<And>a. a < ?N \<Longrightarrow> Children (nodes t2 ! a) = Children (nodes t ! a)"
    by blast
  have e4: "cell_get (arrays t2) (Elements (nodes t2 ! n)) mid
      = Inr (arrays t2 ! arr ?E ! (off ?E + nat mid))"
    using m n by (simp add: cell_get_def el2)
  note unf = splitNonRoot_body_def Let_def mid_def[symmetric]
  show ?thesis
  proof (cases "arrays t2 ! arr ?E ! (off ?E + nat mid)")
    case None
    have "splitNonRoot_body t n = Inl NilDereference"
      unfolding unf by (simp only: e1 e2 e3 e4 None sum.case option.case)
    then show ?thesis ..
  next
    case (Some x)
    show ?thesis
    proof (cases ?par)
      case None
      have "splitNonRoot_body t n = Inl NilDereference"
        unfolding unf
        by (simp only: e1 e2 e3[unfolded None] e4 Some None search_None sum.case option.case prod.case)
      then show ?thesis ..
    next
      case (Some p)
      note par = Some
      from node_ok_parent[OF okn par] have p: "p < ?N" and hp: "h p = Suc (h n)" by blast+
      show ?thesis
      proof (cases rule: search_cases[of t2 p "Key x"])
        case nil
        have "splitNonRoot_body t n = Inl NilDereference"
          unfolding unf
          using \<open>arrays t2 ! arr ?E ! (off ?E + nat mid) = Some x\<close>
          by (simp only: e1 e2 e3[unfolded par] e4 par nil sum.case option.case prod.case)
        then show ?thesis ..
      next
        case (pos ipos f)
        have "\<exists>t3. shiftElements t2 p ipos = Inr t3
            \<and> (\<forall>a. len (Elements (nodes t2 ! a)) \<le> len (Elements (nodes t3 ! a)))
            \<and> (\<forall>v. \<exists>t4. setElement t3 p ipos v = Inr t4
                  \<and> (\<exists>t5. insertChildren t4 p ipos ?N (?N + 1) = Inr t5 \<and> heap_inv t5 h1
                        \<and> length (nodes t5) = length (nodes t2)))"
        proof (rule promote_inv[OF inv2])
          show "p < length (nodes t2)" "?N < length (nodes t2)" "?N + 1 < length (nodes t2)"
            using p by (simp_all add: len2)
          show "h1 p = Suc (h1 ?N)" "h1 p = Suc (h1 (?N + 1))"
            using p hp by (simp_all add: h1_def)
          show "0 \<le> ipos" "ipos \<le> int (len (Elements (nodes t2 ! p)))" by fact+
        qed
        then obtain t3 where e6: "shiftElements t2 p ipos = Inr t3"
          and mono: "\<And>a. len (Elements (nodes t2 ! a)) \<le> len (Elements (nodes t3 ! a))"
          and rest: "\<And>v. \<exists>t4. setElement t3 p ipos v = Inr t4
                  \<and> (\<exists>t5. insertChildren t4 p ipos ?N (?N + 1) = Inr t5 \<and> heap_inv t5 h1
                        \<and> length (nodes t5) = length (nodes t2))"
          by blast
        define v where "v = arrays t3 ! arr (Elements (nodes t3 ! n)) ! (off (Elements (nodes t3 ! n)) + nat mid)"
        have e7: "cell_get (arrays t3) (Elements (nodes t3 ! n)) mid = Inr v"
          using m mono[of n] n by (simp add: cell_get_def el2 v_def)
        from rest[of v] obtain t4 t5 where e8: "setElement t3 p ipos v = Inr t4"
          and e9: "insertChildren t4 p ipos ?N (?N + 1) = Inr t5"
          and inv5: "heap_inv t5 h1" and len5: "length (nodes t5) = length (nodes t2)"
          by blast
        have "splitNonRoot_body t n = Inr (t5, p)"
          unfolding unf
          using \<open>arrays t2 ! arr ?E ! (off ?E + nat mid) = Some x\<close>
          by (simp only: e1 e2 e3[unfolded par] e4 par pos(1) e6 e7 e8 e9 sum.case option.case prod.case)
        with inv5 p hp len5 len2 show ?thesis by (auto simp: h1_def)
      qed
    qed
  qed
qed

lemma splitNonRoot_body_inv:
  fixes t :: "('k, 'v) Tree"
  assumes inv: "heap_inv t h" and n: "n < length (nodes t)" and ss: "shouldSplit t n"
  shows "splitNonRoot_body t n = Inl NilDereference
    \<or> (\<exists>t5 p h5. splitNonRoot_body t n = Inr (t5, p) \<and> heap_inv t5 h5 \<and> p < length (nodes t5))"
  using splitNonRoot_body_inv_rank[OF assms] by fastforce

lemma splitRoot_inv:
  fixes t :: "('k, 'v) Tree"
  assumes inv: "heap_inv t h" and root: "Root t = Some r" and ss: "shouldSplit t r"
  shows "\<exists>t3 h3. splitRoot t = Inr t3 \<and> heap_inv t3 h3"
proof -
  let ?N = "length (nodes t)"
  let ?E = "Elements (nodes t ! r)"
  define mid where "mid = go_div (mT t - 1) 2"
  note ok = heap_invD(3)[OF inv]
  have r: "r < ?N" using heap_invD(2)[OF inv root] .
  have okr: "node_ok (nodes t) h r" using ok r .
  have m: "0 \<le> mid" "mid + 1 \<le> int (len ?E)"
    using mid_bounds[OF heap_invD(1)[OF inv]] ss
    by (simp_all add: mid_def shouldSplit_def maxElements_def)
  have capE: "len ?E \<le> cap ?E" using node_ok_cap[OF okr] .
  define le where "le = ?E\<lparr>len := nat mid\<rparr>"
  define re where "re = ?E\<lparr>off := off ?E + nat (mid + 1), len := len ?E - nat (mid + 1),
                            cap := cap ?E - nat (mid + 1)\<rparr>"
  have e1: "slice_hi ?E mid = Inr le" using m capE by (simp add: slice_hi_def le_def)
  have e2: "slice_lo ?E (mid + 1) = Inr re" using m by (simp add: slice_lo_def re_def)
  define h1 where "h1 = h(?N := h r, Suc ?N := h r)"
  have "\<exists>t2. allocHalves t r mid None le re = Inr t2
      \<and> heap_inv t2 h1 \<and> length (nodes t2) = ?N + 2
      \<and> arrays t2 = arrays t \<and> Root t2 = Root t \<and> mT t2 = mT t
      \<and> (\<forall>a < ?N. Elements (nodes t2 ! a) = Elements (nodes t ! a)
                    \<and> Children (nodes t2 ! a) = Children (nodes t ! a))"
    unfolding h1_def
  proof (rule halves_inv[OF inv r])
    show "p < ?N \<and> h p = Suc (h r)" if "None = Some p" for p using that by simp
    show "len le = nat mid" by (simp add: le_def)
    show "len le \<le> cap le" using m capE by (simp add: le_def)
    show "len re + nat (mid + 1) = len ?E" using m by (simp add: re_def)
    show "len re \<le> cap re" using capE by (simp add: re_def)
    show "0 \<le> mid" by fact
  qed
  then obtain t2 where e3: "allocHalves t r mid None le re = Inr t2"
    and inv2: "heap_inv t2 h1" and len2: "length (nodes t2) = ?N + 2"
    and el2: "\<And>a. a < ?N \<Longrightarrow> Elements (nodes t2 ! a) = Elements (nodes t ! a)"
    and m2: "mT t2 = mT t"
    by blast
  note ok2 = heap_invD(3)[OF inv2]
  define v where "v = arrays t2 ! arr ?E ! (off ?E + nat mid)"
  have e4: "cell_get (arrays t2) (Elements (nodes t2 ! r)) mid = Inr v"
    using m r by (simp add: cell_get_def el2 v_def)
  define t3 where "t3 = allocRoot t2 ?N (?N + 1) v"
  have res: "splitRoot t = Inr t3"
    unfolding splitRoot_def Let_def mid_def[symmetric] t3_def
    by (simp only: root e1 e2 e3 e4 sum.case option.case)
  define h3 where "h3 = h1(?N + 2 := Suc (h r))"
  have len3: "length (nodes t3) = ?N + 3" by (simp add: t3_def allocRoot_def len2)
  have h3_old: "h3 a = h1 a" if "a < ?N + 2" for a using that by (simp add: h3_def)
  have h1_L: "h1 ?N = h r" "h1 (Suc ?N) = h r" by (simp_all add: h1_def)
  have n3_old: "nodes t3 ! a = nodes t2 ! a" if "a < ?N" for a
    using that by (simp add: t3_def allocRoot_def len2 nth_append)
  have n3_L: "nodes t3 ! ?N = (nodes t2 ! ?N)\<lparr>Parent := Some (?N + 2)\<rparr>"
    by (simp add: t3_def allocRoot_def len2 nth_append)
  have n3_R: "nodes t3 ! Suc ?N = (nodes t2 ! Suc ?N)\<lparr>Parent := Some (?N + 2)\<rparr>"
    by (simp add: t3_def allocRoot_def len2 nth_append)
  have n3_new: "nodes t3 ! (?N + 2) = \<lparr>Parent = None, Children = [?N, ?N + 1],
      Elements = \<lparr>arr = length (arrays t2), off = 0, len = 1, cap = 1\<rparr>\<rparr>"
    by (simp add: t3_def allocRoot_def len2 nth_append)
  have "node_ok (nodes t3) h3 a" if a: "a < ?N + 3" for a
  proof -
    consider "a < ?N" | "a = ?N" | "a = Suc ?N" | "a = ?N + 2" using a by linarith
    then show ?thesis
    proof cases
      case 1
      then have a2: "a < length (nodes t2)" by (simp add: len2)
      show ?thesis
      proof (rule node_ok_transfer[OF ok2[OF a2]])
        show "h3 c = h1 c" if "c \<in> set (Children (nodes t2 ! a))" for c
          using node_ok_child[OF ok2[OF a2] that] by (simp add: h3_old len2)
        show "p < length (nodes t3) \<and> h3 p = Suc (h1 a)" if "Parent (nodes t3 ! a) = Some p" for p
        proof -
          from that 1 have "Parent (nodes t2 ! a) = Some p" by (simp add: n3_old)
          from node_ok_parent[OF ok2[OF a2] this] show ?thesis by (simp add: h3_old len2 len3)
        qed
      qed (use 1 in \<open>simp_all add: n3_old len2 len3 h3_old\<close>)
    next
      case 2
      then have a2: "a < length (nodes t2)" by (simp add: len2)
      show ?thesis
      proof (rule node_ok_transfer[OF ok2[OF a2]])
        show "h3 c = h1 c" if "c \<in> set (Children (nodes t2 ! a))" for c
          using node_ok_child[OF ok2[OF a2] that] by (simp add: h3_old len2)
        show "p < length (nodes t3) \<and> h3 p = Suc (h1 a)" if "Parent (nodes t3 ! a) = Some p" for p
          using that 2 by (simp add: n3_L len3 h3_def h1_L)
      qed (use 2 in \<open>simp_all add: n3_L len2 len3 h3_old\<close>)
    next
      case 3
      then have a2: "a < length (nodes t2)" by (simp add: len2)
      show ?thesis
      proof (rule node_ok_transfer[OF ok2[OF a2]])
        show "h3 c = h1 c" if "c \<in> set (Children (nodes t2 ! a))" for c
          using node_ok_child[OF ok2[OF a2] that] by (simp add: h3_old len2)
        show "p < length (nodes t3) \<and> h3 p = Suc (h1 a)" if "Parent (nodes t3 ! a) = Some p" for p
          using that 3 by (simp add: n3_R len3 h3_def h1_L)
      qed (use 3 in \<open>simp_all add: n3_R len2 len3 h3_old\<close>)
    next
      case 4
      show ?thesis
        unfolding node_ok_def 4 n3_new
        by (simp add: len3 h3_def h1_L)
    qed
  qed
  moreover have "Root t3 = Some (?N + 2)" by (simp add: t3_def allocRoot_def len2)
  moreover have "mT t3 = mT t" by (simp add: t3_def allocRoot_def m2)
  moreover have "growth_ok (growth t3)"
    using heap_invD(4)[OF inv2] by (simp add: t3_def allocRoot_def)
  ultimately have "heap_inv t3 h3"
    using heap_invD(1)[OF inv] by (simp add: heap_inv_def len3)
  with res show ?thesis by blast
qed

lemma split_inv:
  fixes t :: "('k, 'v) Tree"
  assumes "split t n = Some y"
  shows "(\<exists>h. heap_inv t h) \<and> n < length (nodes t) \<longrightarrow>
         y = Inl NilDereference \<or> (\<exists>t1 h1. y = Inr t1 \<and> heap_inv t1 h1)"
proof (rule split.raw_induct[where P = "\<lambda>t n y. (\<exists>h. heap_inv t h) \<and> n < length (nodes t) \<longrightarrow>
         y = Inl NilDereference \<or> (\<exists>t1 h1. y = Inr t1 \<and> heap_inv t1 h1)", OF _ assms], goal_cases)
  case (1 f t n y)
  show ?case
  proof (intro impI, elim conjE exE)
    fix h assume inv: "heap_inv t h" and n: "n < length (nodes t)"
    show "y = Inl NilDereference \<or> (\<exists>t1 h1. y = Inr t1 \<and> heap_inv t1 h1)"
    proof (cases "shouldSplit t n")
      case False
      with 1(2) inv show ?thesis by auto
    next
      case ss: True
      show ?thesis
      proof (cases "isRoot t n")
        case True
        then have "Root t = Some n" by (simp add: isRoot_def)
        from splitRoot_inv[OF inv this ss] ss True 1(2) show ?thesis by auto
      next
        case False
        from splitNonRoot_body_inv[OF inv n ss] show ?thesis
        proof (elim disjE exE conjE)
          assume "splitNonRoot_body t n = Inl NilDereference"
          with ss False 1(2) show ?thesis by simp
        next
          fix t5 p h5
          assume b: "splitNonRoot_body t n = Inr (t5, p)" and i5: "heap_inv t5 h5"
            and p: "p < length (nodes t5)"
          from ss False 1(2) b have "f t5 p = Some y" by simp
          from 1(1)[OF this] i5 p show ?thesis by blast
        qed
      qed
    qed
  qed
qed

lemma leaf_shift_inv:
  fixes t :: "('k, 'v) Tree"
  assumes inv: "heap_inv t h" and n: "n < length (nodes t)"
    and leaf: "Children (nodes t ! n) = []" and s: "shiftElements t n ipos = Inr t1"
  shows "heap_inv t1 h"
proof -
  note ok = heap_invD(3)[OF inv]
  from shiftElements_Inr[OF s] obtain s1 where
    n1: "nodes t1 = (nodes t)[n := (nodes t ! n)\<lparr>Elements := s1\<rparr>]"
    and cs1: "len s1 \<le> cap s1" and r1: "Root t1 = Root t" and m1: "mT t1 = mT t"
    and g1: "growth t1 = growth t"
    using node_ok_cap[OF ok[OF n]] heap_invD(4)[OF inv] by blast
  have len1: "length (nodes t1) = length (nodes t)" by (simp add: n1)
  have "node_ok (nodes t1) h a" if a: "a < length (nodes t)" for a
  proof (cases "a = n")
    case False
    then have same: "nodes t1 ! a = nodes t ! a" by (simp add: n1)
    show ?thesis
      by (rule node_ok_transfer[OF ok[OF a]])
        (use node_ok_parent[OF ok[OF a]] in \<open>simp_all add: same len1\<close>)
  next
    case True
    with ok[OF n] n leaf cs1 show ?thesis
      by (simp add: node_ok_def n1)
  qed
  with heap_invD(1,2,4)[OF inv] show ?thesis
    by (auto simp: heap_inv_def len1 r1 m1 g1)
qed

lemma insertIntoLeaf_inv:
  fixes t :: "('k, 'v) Tree"
  assumes inv: "heap_inv t h" and n: "n < length (nodes t)" and leaf: "isLeaf t n"
    and res: "insertIntoLeaf t n ele = Some y"
  shows "y = Inl NilDereference \<or> (\<exists>t1 b h1. y = Inr (t1, b) \<and> heap_inv t1 h1)"
proof (cases rule: search_cases[of t n "Key ele"])
  case nil
  with res show ?thesis by (simp add: insertIntoLeaf_def)
next
  case (pos ipos f)
  show ?thesis
  proof (cases f)
    case True
    with pos obtain t1 where t1: "setElement t n ipos (Some ele) = Inr t1"
      using setElement_ok[of ipos t n] by blast
    from setElement_Inr[OF t1] inv have "heap_inv t1 h" by (auto intro: heap_inv_cong)
    with res pos True t1 show ?thesis by (auto simp: insertIntoLeaf_def)
  next
    case False
    from pos obtain t1 where t1: "shiftElements t n ipos = Inr t1"
      using shiftElements_ok[of ipos t n] by blast
    from leaf have "Children (nodes t ! n) = []" by (simp add: isLeaf_def)
    from leaf_shift_inv[OF inv n this t1] have inv1: "heap_inv t1 h" .
    from shiftElements_Inr(1)[OF t1] n have "len (Elements (nodes t1 ! n)) = len (Elements (nodes t ! n)) + 1"
      by auto
    with pos obtain t2 where t2: "setElement t1 n ipos (Some ele) = Inr t2"
      using setElement_ok[of ipos t1 n] by auto
    from setElement_Inr[OF t2] inv1 have inv2: "heap_inv t2 h" by (auto intro: heap_inv_cong)
    from shiftElements_Inr(1)[OF t1] setElement_Inr(1)[OF t2] n
    have n2: "n < length (nodes t2)" by auto
    from res pos False t1 t2 obtain z where z: "split t2 n = Some z"
      by (auto simp: insertIntoLeaf_def split: option.splits)
    from split_inv[OF z] inv2 n2
    have "z = Inl NilDereference \<or> (\<exists>t3 h3. z = Inr t3 \<and> heap_inv t3 h3)" by blast
    then show ?thesis
    proof (elim disjE exE conjE)
      assume "z = Inl NilDereference"
      with res pos False t1 t2 z show ?thesis by (simp add: insertIntoLeaf_def)
    next
      fix t3 h3 assume zz: "z = Inr t3" and i3: "heap_inv t3 h3"
      from res pos False t1 t2 z zz have "y = Inr (t3, True)" by (simp add: insertIntoLeaf_def)
      with i3 show ?thesis by blast
    qed
  qed
qed

lemma child_at_ok:
  assumes ok: "node_ok (nodes t) h n" and ne: "Children (nodes t ! n) \<noteq> []"
    and i: "0 \<le> ipos" "ipos \<le> int (len (Elements (nodes t ! n)))"
  shows "\<exists>c. child_at t n ipos = Inr c \<and> c < length (nodes t) \<and> h n = Suc (h c)"
proof -
  from node_ok_inner[OF ok ne] i have lt: "nat ipos < length (Children (nodes t ! n))" by simp
  then have "Children (nodes t ! n) ! nat ipos \<in> set (Children (nodes t ! n))" by simp
  from node_ok_child[OF ok this] lt i show ?thesis by (simp add: child_at_def)
qed

lemma insert_node_inv:
  fixes t :: "('k, 'v) Tree"
  assumes "insert_node t n ele = Some y"
  shows "(\<exists>h. heap_inv t h) \<and> n < length (nodes t) \<longrightarrow>
         y = Inl NilDereference \<or> (\<exists>t1 b h1. y = Inr (t1, b) \<and> heap_inv t1 h1)"
proof (rule insert_node.raw_induct[where P = "\<lambda>t n ele y. (\<exists>h. heap_inv t h) \<and> n < length (nodes t) \<longrightarrow>
         y = Inl NilDereference \<or> (\<exists>t1 b h1. y = Inr (t1, b) \<and> heap_inv t1 h1)", OF _ assms], goal_cases)
  case (1 f t n ele y)
  show ?case
  proof (intro impI, elim conjE exE)
    fix h assume inv: "heap_inv t h" and n: "n < length (nodes t)"
    note okn = heap_invD(3)[OF inv n]
    show "y = Inl NilDereference \<or> (\<exists>t1 b h1. y = Inr (t1, b) \<and> heap_inv t1 h1)"
    proof (cases "isLeaf t n")
      case True
      with 1(2) have "insertIntoLeaf t n ele = Some y" by simp
      from insertIntoLeaf_inv[OF inv n True this] show ?thesis .
    next
      case False
      then have ne: "Children (nodes t ! n) \<noteq> []" by (simp add: isLeaf_def)
      show ?thesis
      proof (cases rule: search_cases[of t n "Key ele"])
        case nil
        with False 1(2) show ?thesis by simp
      next
        case (pos ipos fnd)
        show ?thesis
        proof (cases fnd)
          case True
          with pos obtain t1 where t1: "setElement t n ipos (Some ele) = Inr t1"
            using setElement_ok[of ipos t n] by blast
          from setElement_Inr[OF t1] inv have "heap_inv t1 h" by (auto intro: heap_inv_cong)
          with False 1(2) pos True t1 show ?thesis by auto
        next
          case nf: False
          from child_at_ok[OF okn ne pos(2,3)] obtain c where
            c: "child_at t n ipos = Inr c" "c < length (nodes t)" by blast
          with False 1(2) pos nf have "f t c ele = Some y" by simp
          from 1(1)[OF this] inv c(2) show ?thesis by blast
        qed
      qed
    qed
  qed
qed

lemma Put_inv:
  fixes t :: "('k, 'v) Tree"
  assumes inv: "heap_inv t h" and res: "Put t k v = Some y"
  shows "y = Inl NilDereference \<or> (\<exists>t1 h1. y = Inr t1 \<and> heap_inv t1 h1)"
proof (cases "Root t")
  case None
  let ?N = "length (nodes t)"
  define t1 where "t1 = t\<lparr>Root := Some ?N, sizeT := sizeT t + 1,
      nodes := nodes t @ [\<lparr>Parent = None, Children = [],
                            Elements = \<lparr>arr = length (arrays t), off = 0, len = 1, cap = 1\<rparr>\<rparr>],
      arrays := arrays t @ [[Some \<lparr>Key = k, Value = v\<rparr>]]\<rparr>"
  from res None have y: "y = Inr t1" by (simp add: Put_def t1_def)
  note ok = heap_invD(3)[OF inv]
  have "node_ok (nodes t1) (h(?N := 0)) a" if a: "a < ?N + 1" for a
  proof (cases "a = ?N")
    case True
    then show ?thesis by (simp add: node_ok_def t1_def)
  next
    case False
    with a have a': "a < ?N" by simp
    show ?thesis
    proof (rule node_ok_transfer[OF ok[OF a']])
      show "(h(?N := 0)) c = h c" if "c \<in> set (Children (nodes t ! a))" for c
        using node_ok_child[OF ok[OF a'] that] by simp
      show "p < length (nodes t1) \<and> (h(?N := 0)) p = Suc (h a)" if "Parent (nodes t1 ! a) = Some p" for p
      proof -
        from that a' have "Parent (nodes t ! a) = Some p" by (simp add: t1_def nth_append)
        from node_ok_parent[OF ok[OF a'] this] show ?thesis by (simp add: t1_def)
      qed
    qed (use a' in \<open>simp_all add: t1_def nth_append\<close>)
  qed
  with heap_invD(1,4)[OF inv] have "heap_inv t1 (h(?N := 0))"
    by (simp add: heap_inv_def) (simp add: t1_def)
  with y show ?thesis by blast
next
  case (Some r)
  from heap_invD(2)[OF inv Some] have r: "r < length (nodes t)" .
  from res Some obtain z where z: "insert_node t r \<lparr>Key = k, Value = v\<rparr> = Some z"
    by (auto simp: Put_def split: option.splits)
  from insert_node_inv[OF z] inv r
  have "z = Inl NilDereference \<or> (\<exists>t1 b h1. z = Inr (t1, b) \<and> heap_inv t1 h1)" by blast
  then show ?thesis
  proof (elim disjE exE conjE)
    assume "z = Inl NilDereference"
    with res Some z show ?thesis by (simp add: Put_def)
  next
    fix t1 b h1 assume zz: "z = Inr (t1, b)" and i1: "heap_inv t1 h1"
    have i2: "heap_inv (t1\<lparr>sizeT := sizeT t1 + 1\<rparr>) h1"
      using i1 by (simp add: heap_inv_def)
    from res Some z zz have "y = Inr (if b then t1\<lparr>sizeT := sizeT t1 + 1\<rparr> else t1)"
      by (simp add: Put_def)
    with i1 i2 show ?thesis by (cases b) auto
  qed
qed

lemma New_on_inv: "growth_ok g \<Longrightarrow> 2 \<le> m0 \<Longrightarrow> heap_inv (New_on g m0) h"
  by (simp add: heap_inv_def New_on_def)

lemma Clear_inv: "heap_inv t h \<Longrightarrow> heap_inv (Clear t) h"
  by (simp add: heap_inv_def Clear_def)

lemma run_inv:
  fixes t0 :: "('k, 'v) Tree"
  shows "run t0 ops = Some (Inr t) \<Longrightarrow> heap_inv t0 h0 \<Longrightarrow> \<exists>h. heap_inv t h"
proof (induction ops arbitrary: t0 h0)
  case Nil
  then show ?case by auto
next
  case (Cons x ops)
  show ?case
  proof (cases x)
    case (PutOp k v)
    with Cons.prems(1) obtain t1 where p: "Put t0 k v = Some (Inr t1)"
      and r: "run t1 ops = Some (Inr t)"
      by (auto split: option.splits sum.splits)
    from Put_inv[OF Cons.prems(2) p] obtain h1 where "heap_inv t1 h1" by auto
    from Cons.IH[OF r this] show ?thesis .
  next
    case ClearOp
    with Cons.prems(1) have r: "run (Clear t0) ops = Some (Inr t)" by simp
    from Cons.IH[OF r Clear_inv[OF Cons.prems(2)]] show ?thesis .
  qed
qed

lemma reachable_inv:
  "growth_ok g \<Longrightarrow> 2 \<le> m0 \<Longrightarrow> run (New_on g m0) ops = Some (Inr t) \<Longrightarrow> \<exists>h. heap_inv t h"
  using run_inv[OF _ New_on_inv] by blast

subsection \<open>Lookup and height\<close>

lemma searchRecursive_loop_inv:
  fixes t :: "('k, 'v) Tree"
  assumes "searchRecursive_loop t n key = Some y"
  shows "(\<exists>h. heap_inv t h) \<and> n < length (nodes t) \<longrightarrow>
         y = Inl NilDereference
         \<or> (\<exists>x i fnd. y = Inr (x, i, fnd)
              \<and> (fnd \<longrightarrow> (\<exists>a. x = Some a \<and> 0 \<le> i \<and> i < int (len (Elements (nodes t ! a))))))"
proof (rule searchRecursive_loop.raw_induct[where P = "\<lambda>t n key y.
         (\<exists>h. heap_inv t h) \<and> n < length (nodes t) \<longrightarrow>
         y = Inl NilDereference
         \<or> (\<exists>x i fnd. y = Inr (x, i, fnd)
              \<and> (fnd \<longrightarrow> (\<exists>a. x = Some a \<and> 0 \<le> i \<and> i < int (len (Elements (nodes t ! a))))))",
      OF _ assms], goal_cases)
  case (1 f t n key y)
  show ?case
  proof (intro impI, elim conjE exE)
    fix h assume inv: "heap_inv t h" and n: "n < length (nodes t)"
    note okn = heap_invD(3)[OF inv n]
    show "y = Inl NilDereference
         \<or> (\<exists>x i fnd. y = Inr (x, i, fnd)
              \<and> (fnd \<longrightarrow> (\<exists>a. x = Some a \<and> 0 \<le> i \<and> i < int (len (Elements (nodes t ! a))))))"
    proof (cases rule: search_cases[of t n key])
      case nil
      with 1(2) show ?thesis by simp
    next
      case (pos ipos fnd)
      show ?thesis
      proof (cases fnd)
        case True
        with 1(2) pos have "y = Inr (Some n, ipos, True)" by simp
        with pos True show ?thesis by blast
      next
        case nf: False
        show ?thesis
        proof (cases "isLeaf t n")
          case True
          with 1(2) pos nf have "y = Inr (None, - 1, False)" by simp
          then show ?thesis by blast
        next
          case False
          then have ne: "Children (nodes t ! n) \<noteq> []" by (simp add: isLeaf_def)
          from child_at_ok[OF okn ne pos(2,3)] obtain c where
            c: "child_at t n ipos = Inr c" "c < length (nodes t)" by blast
          with False 1(2) pos nf have "f t c key = Some y" by simp
          from 1(1)[OF this] inv c(2) show ?thesis by blast
        qed
      qed
    qed
  qed
qed

lemma Get_inv:
  fixes t :: "('k, 'v) Tree"
  assumes inv: "heap_inv t h" and res: "Get t key = Some y"
  shows "y = Inl NilDereference \<or> (\<exists>r. y = Inr r)"
proof (cases "Root t")
  case None
  with res show ?thesis by (auto simp: Get_def)
next
  case (Some r)
  from heap_invD(2)[OF inv Some] have r: "r < length (nodes t)" .
  show ?thesis
  proof (cases "Empty t")
    case True
    with res Some show ?thesis by (auto simp: Get_def searchRecursive_def)
  next
    case False
    with res Some obtain z where z: "searchRecursive_loop t r key = Some z"
      by (auto simp: Get_def searchRecursive_def split: option.splits)
    from searchRecursive_loop_inv[OF z] inv r
    have "z = Inl NilDereference
         \<or> (\<exists>x i fnd. z = Inr (x, i, fnd)
              \<and> (fnd \<longrightarrow> (\<exists>a. x = Some a \<and> 0 \<le> i \<and> i < int (len (Elements (nodes t ! a))))))"
      by blast
    then show ?thesis
    proof (elim disjE exE conjE)
      assume "z = Inl NilDereference"
      with res Some False z show ?thesis by (auto simp: Get_def searchRecursive_def)
    next
      fix x i fnd
      assume zz: "z = Inr (x, i, fnd)"
        and f: "fnd \<longrightarrow> (\<exists>a. x = Some a \<and> 0 \<le> i \<and> i < int (len (Elements (nodes t ! a))))"
      show ?thesis
      proof (cases fnd)
        case nf: False
        with res Some False z zz show ?thesis by (auto simp: Get_def searchRecursive_def)
      next
        case True
        with f obtain a where a: "x = Some a" "0 \<le> i" "i < int (len (Elements (nodes t ! a)))"
          by blast
        then have "cell_get (arrays t) (Elements (nodes t ! a)) i
            = Inr (arrays t ! arr (Elements (nodes t ! a)) ! (off (Elements (nodes t ! a)) + nat i))"
          by (simp add: cell_get_def)
        with res Some False z zz True a show ?thesis
          by (cases "arrays t ! arr (Elements (nodes t ! a)) ! (off (Elements (nodes t ! a)) + nat i)")
            (auto simp: Get_def searchRecursive_def)
      qed
    qed
  qed
qed

lemma height_loop_inv:
  fixes t :: "('k, 'v) Tree"
  assumes "height_loop t n k = Some y"
  shows "(\<exists>h. heap_inv t h) \<and> (\<forall>a. n = Some a \<longrightarrow> a < length (nodes t)) \<longrightarrow> (\<exists>r. y = Inr r)"
proof (rule height_loop.raw_induct[where P = "\<lambda>t n k y.
         (\<exists>h. heap_inv t h) \<and> (\<forall>a. n = Some a \<longrightarrow> a < length (nodes t)) \<longrightarrow> (\<exists>r. y = Inr r)",
      OF _ assms], goal_cases)
  case (1 f t n k y)
  show ?case
  proof (intro impI, elim conjE exE)
    fix h assume inv: "heap_inv t h" and n: "\<forall>a. n = Some a \<longrightarrow> a < length (nodes t)"
    show "\<exists>r. y = Inr r"
    proof (cases n)
      case None
      with 1(2) show ?thesis by auto
    next
      case (Some a)
      with n have a: "a < length (nodes t)" by simp
      note oka = heap_invD(3)[OF inv a]
      show ?thesis
      proof (cases "Children (nodes t ! a) = []")
        case True
        with 1(2) Some show ?thesis by auto
      next
        case False
        from child_at_ok[OF oka False, of 0] obtain c where
          c: "child_at t a 0 = Inr c" "c < length (nodes t)" by auto
        with False 1(2) Some have "f t (Some c) (k + 1) = Some y" by simp
        from 1(1)[OF this] inv c(2) show ?thesis by blast
      qed
    qed
  qed
qed

lemma Height_inv:
  fixes t :: "('k, 'v) Tree"
  assumes inv: "heap_inv t h" and res: "Height t = Some y"
  shows "\<exists>r. y = Inr r"
  using height_loop_inv[of t "Root t" 0 y] res inv heap_invD(2)[OF inv]
  by (auto simp: Height_def height_def)

lemma run_no_oor:
  fixes t0 :: "('k, 'v) Tree"
  shows "heap_inv t0 h0 \<Longrightarrow> run t0 ops \<noteq> Some (Inl IndexOutOfRange)"
proof (induction ops arbitrary: t0 h0)
  case Nil
  then show ?case by simp
next
  case (Cons x ops)
  show ?case
  proof (cases x)
    case ClearOp
    with Cons.IH[OF Clear_inv[OF Cons.prems]] show ?thesis by simp
  next
    case (PutOp k v)
    show ?thesis
    proof (cases "Put t0 k v")
      case None
      with PutOp show ?thesis by simp
    next
      case (Some y)
      from Put_inv[OF Cons.prems Some] show ?thesis
      proof (elim disjE exE conjE)
        assume "y = Inl NilDereference"
        with PutOp Some show ?thesis by simp
      next
        fix t1 h1 assume "y = Inr t1" "heap_inv t1 h1"
        with PutOp Some Cons.IH[of t1 h1] show ?thesis by simp
      qed
    qed
  qed
qed

subsection \<open>Depth\<close>

lemma at_depth_height:
  assumes d: "at_depth t a d" and inv: "heap_inv t h" and root: "Root t = Some r"
  shows "a < length (nodes t) \<and> h r = h a + d"
  using d inv root
proof (induction rule: at_depth.induct)
  case (at_root t r0)
  with heap_invD(2)[OF at_root(2)] show ?case by simp
next
  case (at_child t a d c)
  from at_child.IH[OF at_child.prems] have a: "a < length (nodes t)" and ha: "h r = h a + d"
    by blast+
  from node_ok_child[OF heap_invD(3)[OF at_child.prems(1) a] at_child.hyps(2)] ha
  show ?case by simp
qed

lemma leaves_same_depth:
  assumes inv: "heap_inv t h"
    and a: "at_depth t a da" "isLeaf t a" and b: "at_depth t b db" "isLeaf t b"
  shows "da = db"
proof -
  from a(1) obtain r where root: "Root t = Some r"
    by (induction rule: at_depth.induct) auto
  from at_depth_height[OF a(1) inv root] have 1: "a < length (nodes t)" "h r = h a + da" by blast+
  from at_depth_height[OF b(1) inv root] have 2: "b < length (nodes t)" "h r = h b + db" by blast+
  from node_ok_leaf[OF heap_invD(3)[OF inv 1(1)]] a(2) have "h a = 0" by (simp add: isLeaf_def)
  moreover from node_ok_leaf[OF heap_invD(3)[OF inv 2(1)]] b(2) have "h b = 0" by (simp add: isLeaf_def)
  ultimately show ?thesis using 1(2) 2(2) by simp
qed

section \<open>Slices stay within their arrays\<close>

lemma nth_update_any: "xs[i := x] ! j = (if i = j \<and> i < length xs then x else xs ! j)"
  by (cases "i < length xs") (simp_all add: nth_list_update list_update_beyond)

lemma arrays_ext_refl: "arrays_ext as as"
  by (simp add: arrays_ext_def)

lemma arrays_ext_trans: "arrays_ext as as1 \<Longrightarrow> arrays_ext as1 as2 \<Longrightarrow> arrays_ext as as2"
  by (auto simp: arrays_ext_def)

lemma slice_ok_ext: "slice_ok as s \<Longrightarrow> arrays_ext as as1 \<Longrightarrow> slice_ok as1 s"
  by (auto simp: slice_ok_def arrays_ext_def)

lemma arrays_ext_update: "length xs = length (as ! i) \<Longrightarrow> arrays_ext as (as[i := xs])"
  by (simp add: arrays_ext_def nth_update_any)

lemma arrays_ext_append: "arrays_ext as (as @ xs)"
  by (auto simp: arrays_ext_def nth_append)

lemma cell_set_ext: "cell_set as s i v = Inr as1 \<Longrightarrow> arrays_ext as as1"
  by (auto simp: cell_set_def split: if_splits intro!: arrays_ext_update)

lemma slice_append_ok:
  assumes "slice_append g as s v = (as1, s1)" and "slice_ok as s" and "growth_ok g"
  shows "arrays_ext as as1 \<and> slice_ok as1 s1"
proof (cases "len s < cap s")
  case True
  with assms show ?thesis
    by (auto simp: slice_append_def slice_ok_def intro!: arrays_ext_update)
next
  case False
  with assms growth_okD[of g "len s + 1" "cap s"] show ?thesis
    by (auto simp: slice_append_def slice_ok_def arrays_ext_append nth_append)
qed

lemma slice_copy_ext:
  assumes "slice_ok as dst"
  shows "arrays_ext as (slice_copy as dst src)"
  unfolding slice_copy_def Let_def
  using assms by (intro arrays_ext_update) (auto simp: slice_ok_def)

lemma slice_lo_ok: "slice_lo s lo = Inr s1 \<Longrightarrow> slice_ok as s \<Longrightarrow> slice_ok as s1"
  by (auto simp: slice_lo_def slice_ok_def split: if_splits)

lemma slice_hi_ok: "slice_hi s hi = Inr s1 \<Longrightarrow> slice_ok as s \<Longrightarrow> slice_ok as s1"
  by (auto simp: slice_hi_def slice_ok_def split: if_splits)

lemma slices_okD: "slices_ok t \<Longrightarrow> a < length (nodes t) \<Longrightarrow> slice_ok (arrays t) (Elements (nodes t ! a))"
  by (simp add: slices_ok_def)

lemma shiftElements_slices:
  assumes ok: "slices_ok t" and g: "growth_ok (growth t)" and n: "n < length (nodes t)"
    and s: "shiftElements t n ipos = Inr t1"
  shows "slices_ok t1"
proof -
  obtain as1 s1 where a: "slice_append (growth t) (arrays t) (Elements (nodes t ! n)) None = (as1, s1)"
    by (cases "slice_append (growth t) (arrays t) (Elements (nodes t ! n)) None")
  from slice_append_ok[OF a slices_okD[OF ok n] g] have e1: "arrays_ext (arrays t) as1"
    and s1: "slice_ok as1 s1" by blast+
  from s a obtain dst src where d: "slice_lo s1 (ipos + 1) = Inr dst"
    and t1: "t1 = t\<lparr>nodes := (nodes t)[n := (nodes t ! n)\<lparr>Elements := s1\<rparr>],
                    arrays := slice_copy as1 dst src\<rparr>"
    by (auto simp: shiftElements_def split: sum.splits)
  from slice_copy_ext[OF slice_lo_ok[OF d s1]] have e2: "arrays_ext as1 (slice_copy as1 dst src)" .
  have "slice_ok (arrays t1) (Elements (nodes t1 ! a))" if "a < length (nodes t)" for a
  proof (cases "a = n")
    case True
    with n slice_ok_ext[OF s1 e2] show ?thesis by (simp add: t1)
  next
    case False
    with slice_ok_ext[OF slices_okD[OF ok that] arrays_ext_trans[OF e1 e2]] show ?thesis
      by (simp add: t1)
  qed
  then show ?thesis by (simp add: slices_ok_def t1)
qed

lemma setElement_slices:
  assumes ok: "slices_ok t" and s: "setElement t n ipos v = Inr t1"
  shows "slices_ok t1"
proof -
  from s obtain as1 where c: "cell_set (arrays t) (Elements (nodes t ! n)) ipos v = Inr as1"
    and t1: "t1 = t\<lparr>arrays := as1\<rparr>"
    by (auto simp: setElement_def split: sum.splits)
  from ok cell_set_ext[OF c] show ?thesis
    by (auto simp: slices_ok_def t1 intro: slice_ok_ext)
qed

lemma allocHalves_Elements:
  assumes "allocHalves t n mid par le re = Inr t2"
  shows "length (nodes t2) = length (nodes t) + 2" and "arrays t2 = arrays t"
    and "\<And>a. a < length (nodes t) \<Longrightarrow> Elements (nodes t2 ! a) = Elements (nodes t ! a)"
    and "Elements (nodes t2 ! length (nodes t)) = le"
    and "Elements (nodes t2 ! Suc (length (nodes t))) = re"
    and "growth t2 = growth t"
  using assms
  by (auto simp: allocHalves_def moveChildren_def Let_def nth_append nth_list_update
      split: if_splits)

lemma allocHalves_slices:
  assumes ok: "slices_ok t" and n: "n < length (nodes t)"
    and le: "slice_hi (Elements (nodes t ! n)) mid = Inr le"
    and re: "slice_lo (Elements (nodes t ! n)) lo = Inr re"
    and a: "allocHalves t n mid par le re = Inr t2"
  shows "slices_ok t2"
proof -
  note f = allocHalves_Elements[OF a]
  have "slice_ok (arrays t2) (Elements (nodes t2 ! a))" if a2: "a < length (nodes t) + 2" for a
  proof -
    consider "a < length (nodes t)" | "a = length (nodes t)" | "a = Suc (length (nodes t))"
      using a2 by linarith
    then show ?thesis
    proof cases
      case 1
      with slices_okD[OF ok 1] show ?thesis by (simp add: f)
    next
      case 2
      with slice_hi_ok[OF le slices_okD[OF ok n]] show ?thesis by (simp add: f)
    next
      case 3
      with slice_lo_ok[OF re slices_okD[OF ok n]] show ?thesis by (simp add: f)
    qed
  qed
  then show ?thesis by (simp add: slices_ok_def f)
qed

lemma insertChildren_slices:
  assumes ok: "slices_ok t" and s: "insertChildren t p ipos l r = Inr t1"
  shows "slices_ok t1"
  using assms
  by (auto simp: insertChildren_def slices_ok_def nth_update_any split: if_splits)

lemma allocRoot_slices:
  assumes ok: "slices_ok t" and l: "l < length (nodes t)" and r: "r < length (nodes t)"
  shows "slices_ok (allocRoot t l r v)"
proof -
  have "slice_ok (arrays (allocRoot t l r v)) (Elements (nodes (allocRoot t l r v) ! a))"
    if "a < length (nodes t) + 1" for a
  proof (cases "a = length (nodes t)")
    case True
    with l r show ?thesis by (simp add: allocRoot_def nth_append slice_ok_def)
  next
    case False
    with that have a: "a < length (nodes t)" by simp
    have "Elements (nodes (allocRoot t l r v) ! a) = Elements (nodes t ! a)"
      using a l r by (simp add: allocRoot_def nth_append nth_list_update)
    with slice_ok_ext[OF slices_okD[OF ok a] arrays_ext_append[of "arrays t" "[[v]]"]]
    show ?thesis by (simp add: allocRoot_def)
  qed
  then show ?thesis by (simp add: slices_ok_def allocRoot_def)
qed

lemma splitRoot_slices:
  assumes ok: "slices_ok t" and inv: "heap_inv t h" and s: "splitRoot t = Inr t1"
  shows "slices_ok t1"
proof -
  from s obtain r le re t2 v where root: "Root t = Some r"
    and le: "slice_hi (Elements (nodes t ! r)) (go_div (mT t - 1) 2) = Inr le"
    and re: "slice_lo (Elements (nodes t ! r)) (go_div (mT t - 1) 2 + 1) = Inr re"
    and a: "allocHalves t r (go_div (mT t - 1) 2) None le re = Inr t2"
    and t1: "t1 = allocRoot t2 (length (nodes t)) (length (nodes t) + 1) v"
    by (auto simp: splitRoot_def Let_def split: option.splits sum.splits)
  from heap_invD(2)[OF inv root] have r: "r < length (nodes t)" .
  from allocHalves_slices[OF ok r le re a] have "slices_ok t2" .
  from allocRoot_slices[OF this] allocHalves_Elements(1)[OF a] show ?thesis
    by (simp add: t1)
qed

lemma splitNonRoot_body_slices:
  assumes ok: "slices_ok t" and inv: "heap_inv t h" and n: "n < length (nodes t)"
    and s: "splitNonRoot_body t n = Inr (t5, p)"
  shows "slices_ok t5"
proof -
  from s obtain le re t2 ipos t3 v t4 where par: "Parent (nodes t ! n) = Some p"
    and le: "slice_hi (Elements (nodes t ! n)) (go_div (mT t - 1) 2) = Inr le"
    and re: "slice_lo (Elements (nodes t ! n)) (go_div (mT t - 1) 2 + 1) = Inr re"
    and a: "allocHalves t n (go_div (mT t - 1) 2) (Some p) le re = Inr t2"
    and t3: "shiftElements t2 p ipos = Inr t3"
    and t4: "setElement t3 p ipos v = Inr t4"
    and t5: "insertChildren t4 p ipos (length (nodes t)) (length (nodes t) + 1) = Inr t5"
    unfolding splitNonRoot_body_def Let_def
    by (auto split: option.splits sum.splits prod.splits)
  from node_ok_parent[OF heap_invD(3)[OF inv n] par] have p: "p < length (nodes t)" by simp
  from allocHalves_slices[OF ok n le re a] have "slices_ok t2" .
  moreover have "growth_ok (growth t2)"
    using heap_invD(4)[OF inv] by (simp add: allocHalves_Elements(6)[OF a])
  ultimately have "slices_ok t3"
    using shiftElements_slices[OF _ _ _ t3] p allocHalves_Elements(1)[OF a] by simp
  from insertChildren_slices[OF setElement_slices[OF this t4] t5] show ?thesis .
qed

lemma split_slices:
  fixes t :: "('k, 'v) Tree"
  assumes "split t n = Some y"
  shows "(\<exists>h. heap_inv t h) \<and> slices_ok t \<and> n < length (nodes t) \<longrightarrow>
         (\<forall>t1. y = Inr t1 \<longrightarrow> slices_ok t1)"
proof (rule split.raw_induct[where P = "\<lambda>t n y.
         (\<exists>h. heap_inv t h) \<and> slices_ok t \<and> n < length (nodes t) \<longrightarrow>
         (\<forall>t1. y = Inr t1 \<longrightarrow> slices_ok t1)", OF _ assms], goal_cases)
  case (1 f t n y)
  show ?case
  proof (intro impI allI, elim conjE exE)
    fix t1 h assume inv: "heap_inv t h" and ok: "slices_ok t" and n: "n < length (nodes t)"
      and y: "y = Inr t1"
    show "slices_ok t1"
    proof (cases "shouldSplit t n")
      case False
      with 1(2) y ok show ?thesis by auto
    next
      case ss: True
      show ?thesis
      proof (cases "isRoot t n")
        case True
        with ss 1(2) y have "splitRoot t = Inr t1" by simp
        from splitRoot_slices[OF ok inv this] show ?thesis .
      next
        case False
        from splitNonRoot_body_inv[OF inv n ss] show ?thesis
        proof (elim disjE exE conjE)
          assume "splitNonRoot_body t n = Inl NilDereference"
          with ss False 1(2) y show ?thesis by simp
        next
          fix t5 p h5
          assume b: "splitNonRoot_body t n = Inr (t5, p)" and i5: "heap_inv t5 h5"
            and p: "p < length (nodes t5)"
          from ss False 1(2) b have "f t5 p = Some y" by simp
          from 1(1)[OF this] i5 p splitNonRoot_body_slices[OF ok inv n b] y
          show ?thesis by blast
        qed
      qed
    qed
  qed
qed

lemma insertIntoLeaf_slices:
  fixes t :: "('k, 'v) Tree"
  assumes ok: "slices_ok t" and inv: "heap_inv t h" and n: "n < length (nodes t)"
    and leaf: "isLeaf t n" and res: "insertIntoLeaf t n ele = Some (Inr (t3, b))"
  shows "slices_ok t3"
proof -
  from res obtain ipos fnd where s: "search t (Some n) (Key ele) = Inr (ipos, fnd)"
    by (auto simp: insertIntoLeaf_def split: sum.splits)
  show ?thesis
  proof (cases fnd)
    case True
    with res s have "setElement t n ipos (Some ele) = Inr t3"
      by (auto simp: insertIntoLeaf_def split: sum.splits)
    from setElement_slices[OF ok this] show ?thesis .
  next
    case False
    with res s obtain t1 t2 where t1: "shiftElements t n ipos = Inr t1"
      and t2: "setElement t1 n ipos (Some ele) = Inr t2"
      and sp: "split t2 n = Some (Inr t3)"
      by (auto simp: insertIntoLeaf_def split: sum.splits option.splits)
    from leaf have "Children (nodes t ! n) = []" by (simp add: isLeaf_def)
    from leaf_shift_inv[OF inv n this t1] have inv1: "heap_inv t1 h" .
    from setElement_Inr[OF t2] inv1 have inv2: "heap_inv t2 h" by (auto intro: heap_inv_cong)
    from shiftElements_Inr(1)[OF t1] setElement_Inr(1)[OF t2] n
    have n2: "n < length (nodes t2)" by auto
    from setElement_slices[OF shiftElements_slices[OF ok heap_invD(4)[OF inv] n t1] t2]
    have "slices_ok t2" .
    with split_slices[OF sp] inv2 n2 show ?thesis by blast
  qed
qed

lemma insert_node_slices:
  fixes t :: "('k, 'v) Tree"
  assumes "insert_node t n ele = Some y"
  shows "(\<exists>h. heap_inv t h) \<and> slices_ok t \<and> n < length (nodes t) \<longrightarrow>
         (\<forall>t1 b. y = Inr (t1, b) \<longrightarrow> slices_ok t1)"
proof (rule insert_node.raw_induct[where P = "\<lambda>t n ele y.
         (\<exists>h. heap_inv t h) \<and> slices_ok t \<and> n < length (nodes t) \<longrightarrow>
         (\<forall>t1 b. y = Inr (t1, b) \<longrightarrow> slices_ok t1)", OF _ assms], goal_cases)
  case (1 f t n ele y)
  show ?case
  proof (intro impI allI, elim conjE exE)
    fix t1 b h assume inv: "heap_inv t h" and ok: "slices_ok t" and n: "n < length (nodes t)"
      and y: "y = Inr (t1, b)"
    note okn = heap_invD(3)[OF inv n]
    show "slices_ok t1"
    proof (cases "isLeaf t n")
      case True
      with 1(2) y have "insertIntoLeaf t n ele = Some (Inr (t1, b))" by simp
      from insertIntoLeaf_slices[OF ok inv n True this] show ?thesis .
    next
      case False
      then have ne: "Children (nodes t ! n) \<noteq> []" by (simp add: isLeaf_def)
      show ?thesis
      proof (cases rule: search_cases[of t n "Key ele"])
        case nil
        with False 1(2) y show ?thesis by simp
      next
        case (pos ipos fnd)
        show ?thesis
        proof (cases fnd)
          case True
          with False 1(2) pos y have "setElement t n ipos (Some ele) = Inr t1"
            by (auto split: sum.splits)
          from setElement_slices[OF ok this] show ?thesis .
        next
          case nf: False
          from child_at_ok[OF okn ne pos(2,3)] obtain c where
            c: "child_at t n ipos = Inr c" "c < length (nodes t)" by blast
          with False 1(2) pos nf have "f t c ele = Some y" by simp
          from 1(1)[OF this] inv ok c(2) y show ?thesis by blast
        qed
      qed
    qed
  qed
qed

lemma Put_slices:
  fixes t :: "('k, 'v) Tree"
  assumes ok: "slices_ok t" and inv: "heap_inv t h" and res: "Put t k v = Some (Inr t1)"
  shows "slices_ok t1"
proof (cases "Root t")
  case None
  with res have t1: "t1 = t\<lparr>Root := Some (length (nodes t)), sizeT := sizeT t + 1,
      nodes := nodes t @ [\<lparr>Parent = None, Children = [],
                            Elements = \<lparr>arr = length (arrays t), off = 0, len = 1, cap = 1\<rparr>\<rparr>],
      arrays := arrays t @ [[Some \<lparr>Key = k, Value = v\<rparr>]]\<rparr>"
    by (simp add: Put_def)
  have "slice_ok (arrays t1) (Elements (nodes t1 ! a))" if "a < length (nodes t) + 1" for a
  proof (cases "a = length (nodes t)")
    case True
    then show ?thesis by (simp add: t1 slice_ok_def)
  next
    case False
    with that have a: "a < length (nodes t)" by simp
    with slice_ok_ext[OF slices_okD[OF ok a] arrays_ext_append] show ?thesis
      by (simp add: t1 nth_append)
  qed
  then show ?thesis by (simp add: slices_ok_def t1)
next
  case (Some r)
  from heap_invD(2)[OF inv Some] have r: "r < length (nodes t)" .
  from res Some obtain t2 b where z: "insert_node t r \<lparr>Key = k, Value = v\<rparr> = Some (Inr (t2, b))"
    and t1: "t1 = (if b then t2\<lparr>sizeT := sizeT t2 + 1\<rparr> else t2)"
    by (auto simp: Put_def split: option.splits sum.splits)
  from insert_node_slices[OF z] inv ok r have "slices_ok t2" by blast
  then show ?thesis by (simp add: t1 slices_ok_def)
qed

lemma run_slices:
  fixes t0 :: "('k, 'v) Tree"
  shows "run t0 ops = Some (Inr t) \<Longrightarrow> heap_inv t0 h0 \<Longrightarrow> slices_ok t0 \<Longrightarrow> slices_ok t"
proof (induction ops arbitrary: t0 h0)
  case Nil
  then show ?case by auto
next
  case (Cons x ops)
  show ?case
  proof (cases x)
    case (PutOp k v)
    with Cons.prems(1) obtain t1 where p: "Put t0 k v = Some (Inr t1)"
      and r: "run t1 ops = Some (Inr t)"
      by (auto split: option.splits sum.splits)
    from Put_inv[OF Cons.prems(2) p] obtain h1 where "heap_inv t1 h1" by auto
    from Cons.IH[OF r this Put_slices[OF Cons.prems(3,2) p]] show ?thesis .
  next
    case ClearOp
    with Cons.prems(1) have r: "run (Clear t0) ops = Some (Inr t)" by simp
    have "slices_ok (Clear t0)" using Cons.prems(3) by (simp add: slices_ok_def Clear_def)
    from Cons.IH[OF r Clear_inv[OF Cons.prems(2)] this] show ?thesis .
  qed
qed

lemma reachable_slices_ok:
  "growth_ok g \<Longrightarrow> 2 \<le> m0 \<Longrightarrow> run (New_on g m0) ops = Some (Inr t) \<Longrightarrow> slices_ok t"
  using run_slices[OF _ New_on_inv, of g m0 ops t] by (simp add: slices_ok_def New_on_def)

section \<open>The operations return\<close>

text \<open>
  On a heap of the shape above every operation comes to an end: a descent goes down
  one level with each step, and a split goes up one level with each step, below the
  highest level of the heap.
\<close>

lemma searchRecursive_loop_returns:
  fixes t :: "('k, 'v) Tree"
  assumes inv: "heap_inv t h"
  shows "n < length (nodes t) \<Longrightarrow> \<exists>y. searchRecursive_loop t n key = Some y"
proof (induction "h n" arbitrary: n rule: less_induct)
  case less
  note okn = heap_invD(3)[OF inv less.prems]
  show ?case
  proof (cases rule: search_cases[of t n key])
    case nil
    then show ?thesis by (subst searchRecursive_loop.simps) simp
  next
    case (pos ipos fnd)
    show ?thesis
    proof (cases "fnd \<or> isLeaf t n")
      case True
      with pos show ?thesis by (subst searchRecursive_loop.simps) auto
    next
      case False
      then have ne: "Children (nodes t ! n) \<noteq> []" by (simp add: isLeaf_def)
      from child_at_ok[OF okn ne pos(2,3)] obtain c where
        c: "child_at t n ipos = Inr c" "c < length (nodes t)" "h n = Suc (h c)" by blast
      from less.hyps[of c] c obtain y where "searchRecursive_loop t c key = Some y" by auto
      with pos False c show ?thesis by (subst searchRecursive_loop.simps) simp
    qed
  qed
qed

lemma Get_returns:
  fixes t :: "('k, 'v) Tree"
  assumes inv: "heap_inv t h"
  shows "\<exists>y. Get t key = Some y"
proof (cases "Root t")
  case None
  then show ?thesis by (simp add: Get_def)
next
  case (Some r)
  from searchRecursive_loop_returns[OF inv heap_invD(2)[OF inv Some], of key]
  obtain z where "searchRecursive_loop t r key = Some z" by blast
  with Some show ?thesis
    by (auto simp: Get_def searchRecursive_def split: sum.splits option.splits prod.splits)
qed

lemma height_loop_returns:
  fixes t :: "('k, 'v) Tree"
  assumes inv: "heap_inv t h"
  shows "a < length (nodes t) \<Longrightarrow> \<exists>y. height_loop t (Some a) k = Some y"
proof (induction "h a" arbitrary: a k rule: less_induct)
  case less
  note oka = heap_invD(3)[OF inv less.prems]
  show ?case
  proof (cases "Children (nodes t ! a) = []")
    case True
    then show ?thesis by (subst height_loop.simps) simp
  next
    case False
    from child_at_ok[OF oka False, of 0] obtain c where
      c: "child_at t a 0 = Inr c" "c < length (nodes t)" "h a = Suc (h c)" by auto
    from less.hyps[of c "k + 1"] c obtain y where "height_loop t (Some c) (k + 1) = Some y" by auto
    with False c show ?thesis by (subst height_loop.simps) simp
  qed
qed

lemma Height_returns:
  fixes t :: "('k, 'v) Tree"
  assumes inv: "heap_inv t h"
  shows "\<exists>y. Height t = Some y"
proof (cases "Root t")
  case None
  then show ?thesis by (simp add: Height_def height_def height_loop.simps)
next
  case (Some r)
  from height_loop_returns[OF inv heap_invD(2)[OF inv Some], of 0] Some show ?thesis
    by (simp add: Height_def height_def)
qed

lemma levels_bounded: "\<exists>H. \<forall>a < n. (h :: nat \<Rightarrow> nat) a \<le> H"
proof (induction n)
  case 0
  show ?case by simp
next
  case (Suc n)
  then obtain H where "\<forall>a < n. h a \<le> H" ..
  then have "\<forall>a < Suc n. h a \<le> max H (h n)" by (auto simp: less_Suc_eq le_max_iff_disj)
  then show ?case ..
qed

lemma split_returns_bounded:
  fixes t :: "('k, 'v) Tree"
  shows "heap_inv t h \<Longrightarrow> \<forall>a < length (nodes t). h a \<le> H \<Longrightarrow> n < length (nodes t)
    \<Longrightarrow> \<exists>y. split t n = Some y"
proof (induction "H - h n" arbitrary: t h n rule: less_induct)
  case less
  note inv = less.prems(1) and bnd = less.prems(2) and n = less.prems(3)
  show ?case
  proof (cases "shouldSplit t n")
    case False
    then show ?thesis by (subst split.simps) simp
  next
    case ss: True
    show ?thesis
    proof (cases "isRoot t n")
      case True
      with ss show ?thesis by (subst split.simps) simp
    next
      case False
      from splitNonRoot_body_inv_rank[OF inv n ss] show ?thesis
      proof (elim disjE exE conjE)
        assume "splitNonRoot_body t n = Inl NilDereference"
        with ss False show ?thesis by (subst split.simps) simp
      next
        fix t5 p
        let ?h1 = "h(length (nodes t) := h n, Suc (length (nodes t)) := h n)"
        assume b: "splitNonRoot_body t n = Inr (t5, p)" and i5: "heap_inv t5 ?h1"
          and l5: "length (nodes t5) = length (nodes t) + 2"
          and p: "p < length (nodes t)" and hp: "h p = Suc (h n)"
        have bnd5: "\<forall>a < length (nodes t5). ?h1 a \<le> H"
          using bnd n by (auto simp: l5)
        have "H - ?h1 p < H - h n" using p hp bnd by (auto simp: Suc_le_eq)
        from less.hyps[OF this i5 bnd5] p l5 obtain y where "split t5 p = Some y" by auto
        with ss False b show ?thesis by (subst split.simps) simp
      qed
    qed
  qed
qed

lemma split_returns:
  fixes t :: "('k, 'v) Tree"
  assumes "heap_inv t h" and "n < length (nodes t)"
  shows "\<exists>y. split t n = Some y"
proof -
  from levels_bounded[of "length (nodes t)" h] obtain H where "\<forall>a < length (nodes t). h a \<le> H" ..
  from split_returns_bounded[OF assms(1) this assms(2)] show ?thesis .
qed

lemma insertIntoLeaf_returns:
  fixes t :: "('k, 'v) Tree"
  assumes inv: "heap_inv t h" and n: "n < length (nodes t)" and leaf: "isLeaf t n"
  shows "\<exists>y. insertIntoLeaf t n ele = Some y"
proof (cases rule: search_cases[of t n "Key ele"])
  case nil
  then show ?thesis by (simp add: insertIntoLeaf_def)
next
  case (pos ipos fnd)
  show ?thesis
  proof (cases fnd)
    case True
    with pos show ?thesis
      by (auto simp: insertIntoLeaf_def split: sum.splits)
  next
    case False
    from pos obtain t1 where t1: "shiftElements t n ipos = Inr t1"
      using shiftElements_ok[of ipos t n] by blast
    from leaf have "Children (nodes t ! n) = []" by (simp add: isLeaf_def)
    from leaf_shift_inv[OF inv n this t1] have inv1: "heap_inv t1 h" .
    from shiftElements_Inr(1)[OF t1] n have "len (Elements (nodes t1 ! n)) = len (Elements (nodes t ! n)) + 1"
      by auto
    with pos obtain t2 where t2: "setElement t1 n ipos (Some ele) = Inr t2"
      using setElement_ok[of ipos t1 n] by auto
    from setElement_Inr[OF t2] inv1 have inv2: "heap_inv t2 h" by (auto intro: heap_inv_cong)
    from shiftElements_Inr(1)[OF t1] setElement_Inr(1)[OF t2] n
    have n2: "n < length (nodes t2)" by auto
    from split_returns[OF inv2 n2] obtain z where "split t2 n = Some z" ..
    with pos False t1 t2 show ?thesis
      by (auto simp: insertIntoLeaf_def split: sum.splits)
  qed
qed

lemma insert_node_returns:
  fixes t :: "('k, 'v) Tree"
  assumes inv: "heap_inv t h"
  shows "n < length (nodes t) \<Longrightarrow> \<exists>y. insert_node t n ele = Some y"
proof (induction "h n" arbitrary: n rule: less_induct)
  case less
  note okn = heap_invD(3)[OF inv less.prems]
  show ?case
  proof (cases "isLeaf t n")
    case True
    from insertIntoLeaf_returns[OF inv less.prems True, of ele] True show ?thesis
      by (subst insert_node.simps) simp
  next
    case False
    then have ne: "Children (nodes t ! n) \<noteq> []" by (simp add: isLeaf_def)
    show ?thesis
    proof (cases rule: search_cases[of t n "Key ele"])
      case nil
      with False show ?thesis by (subst insert_node.simps) simp
    next
      case (pos ipos fnd)
      show ?thesis
      proof (cases fnd)
        case True
        with False pos show ?thesis
          by (subst insert_node.simps) (auto split: sum.splits)
      next
        case nf: False
        from child_at_ok[OF okn ne pos(2,3)] obtain c where
          c: "child_at t n ipos = Inr c" "c < length (nodes t)" "h n = Suc (h c)" by blast
        from less.hyps[of c] c obtain y where "insert_node t c ele = Some y" by auto
        with False pos nf c show ?thesis by (subst insert_node.simps) simp
      qed
    qed
  qed
qed

lemma Put_returns:
  fixes t :: "('k, 'v) Tree"
  assumes inv: "heap_inv t h"
  shows "\<exists>y. Put t k v = Some y"
proof (cases "Root t")
  case None
  then show ?thesis by (simp add: Put_def)
next
  case (Some r)
  from insert_node_returns[OF inv heap_invD(2)[OF inv Some]]
  obtain z where "insert_node t r \<lparr>Key = k, Value = v\<rparr> = Some z" by blast
  with Some show ?thesis
    by (auto simp: Put_def split: sum.splits prod.splits)
qed

section \<open>The claims on every reachable state\<close>

text \<open>
  The two theorems of this section are about a tree created on any runtime: the
  growth rule \<open>g\<close> of \<open>append\<close> is arbitrary but for what the language promises, that the
  new capacity holds the needed length. The rule of the Go runtime is one such \<open>g\<close>,
  whatever the word size and the size classes of its allocator.
\<close>

text \<open>
  C4. After any run of \<open>Put\<close> (and \<open>Clear\<close>) on a tree created with a branching factor
  of at least 2, whatever the growth rule of \<open>append\<close>, all the leaves that are reached
  from the root are at the same depth.
\<close>

theorem C4_leaves_same_depth:
  fixes t :: "('k::linorder, 'v) Tree"
  assumes "growth_ok g" and "2 \<le> m0" and "run (New_on g m0) ops = Some (Inr t)"
    and "at_depth t a da" and "isLeaf t a" and "at_depth t b db" and "isLeaf t b"
  shows "da = db"
proof -
  from reachable_inv[OF assms(1-3)] obtain h where "heap_inv t h" ..
  from leaves_same_depth[OF this assms(4-7)] show ?thesis .
qed

theorem C4_witness:
  "growth_ok growcap \<and> (2::int) \<le> 5
   \<and> run (New_on growcap 5) exampleTree = Some (Inr (result_of (run (New_on growcap 5) exampleTree)))
   \<and> at_depth (result_of (run (New_on growcap 5) exampleTree)) 1 (Suc 0)
   \<and> isLeaf (result_of (run (New_on growcap 5) exampleTree)) 1
   \<and> at_depth (result_of (run (New_on growcap 5) exampleTree)) 5 (Suc 0)
   \<and> isLeaf (result_of (run (New_on growcap 5) exampleTree)) 5
   \<and> Suc 0 = Suc 0"
proof -
  let ?T = "result_of (run (New_on growcap 5) exampleTree)"
  have "holds_after (New_on growcap 5) exampleTree (\<lambda>t. Root t = Some 3
      \<and> Children (nodes t ! 3) = [1, 4, 5] \<and> isLeaf t 1 \<and> isLeaf t 5)"
    unfolding exampleTree_def by code_simp
  from holds_afterD[OF this]
  have r: "run (New_on growcap 5) exampleTree = Some (Inr ?T)"
    and root: "Root ?T = Some 3" and ch: "Children (nodes ?T ! 3) = [1, 4, 5]"
    and l1: "isLeaf ?T 1" and l5: "isLeaf ?T 5" by blast+
  have d1: "at_depth ?T 1 (Suc 0)"
    by (rule at_child[OF at_root[OF root]]) (simp add: ch)
  have d5: "at_depth ?T 5 (Suc 0)"
    by (rule at_child[OF at_root[OF root]]) (simp add: ch)
  have "(2::int) \<le> 5" by simp
  from C4_leaves_same_depth[OF growcap_ok this r d1 l1 d5 l5] growcap_ok r d1 l1 d5 l5
  show ?thesis by simp
qed

text \<open>
  C9. In every state that a run of \<open>Put\<close> and \<open>Clear\<close> reaches from a tree created
  with a branching factor of at least 2, whatever the growth rule of \<open>append\<close>, no
  operation indexes or slices the entries or the children of a node out of range: \<open>Put\<close>, \<open>Get\<close> and \<open>Height\<close> return, and
  neither they nor any further run end in the panic \<open>IndexOutOfRange\<close>; the index
  that \<open>search\<close> returns on a node of the heap is between 0 and the number of entries
  of the node; every node of the heap that has children has one child more than
  entries; the children of a node are nodes of the heap; and the entries of a node
  are a slice within its backing array.
\<close>

theorem C9_indices_in_range:
  fixes t :: "('k::linorder, 'v) Tree"
  assumes "growth_ok g" and "2 \<le> m0" and "run (New_on g m0) ops = Some (Inr t)"
  shows "Put t k v \<noteq> None \<and> Put t k v \<noteq> Some (Inl IndexOutOfRange)
    \<and> Get t key \<noteq> None \<and> Get t key \<noteq> Some (Inl IndexOutOfRange)
    \<and> Height t \<noteq> None \<and> Height t \<noteq> Some (Inl IndexOutOfRange)
    \<and> run t ops1 \<noteq> Some (Inl IndexOutOfRange)
    \<and> (\<forall>a < length (nodes t).
          search t (Some a) key \<noteq> Inl IndexOutOfRange
          \<and> (\<forall>i f. search t (Some a) key = Inr (i, f) \<longrightarrow>
                0 \<le> i \<and> i \<le> int (len (Elements (nodes t ! a))))
          \<and> (Children (nodes t ! a) \<noteq> [] \<longrightarrow>
                length (Children (nodes t ! a)) = len (Elements (nodes t ! a)) + 1)
          \<and> (\<forall>c \<in> set (Children (nodes t ! a)). c < length (nodes t))
          \<and> slice_ok (arrays t) (Elements (nodes t ! a)))"
proof -
  from reachable_inv[OF assms] obtain h where inv: "heap_inv t h" ..
  have "Put t k v \<noteq> Some (Inl IndexOutOfRange)" using Put_inv[OF inv] by fastforce
  moreover have "Get t key \<noteq> Some (Inl IndexOutOfRange)" using Get_inv[OF inv] by fastforce
  moreover have "Height t \<noteq> Some (Inl IndexOutOfRange)" using Height_inv[OF inv] by fastforce
  moreover have "run t ops1 \<noteq> Some (Inl IndexOutOfRange)" using run_no_oor[OF inv] .
  moreover have "Put t k v \<noteq> None" using Put_returns[OF inv, of k v] by auto
  moreover have "Get t key \<noteq> None" using Get_returns[OF inv, of key] by auto
  moreover have "Height t \<noteq> None" using Height_returns[OF inv] by auto
  moreover have "search t (Some a) key \<noteq> Inl IndexOutOfRange
          \<and> (\<forall>i f. search t (Some a) key = Inr (i, f) \<longrightarrow>
                0 \<le> i \<and> i \<le> int (len (Elements (nodes t ! a))))
          \<and> (Children (nodes t ! a) \<noteq> [] \<longrightarrow>
                length (Children (nodes t ! a)) = len (Elements (nodes t ! a)) + 1)
          \<and> (\<forall>c \<in> set (Children (nodes t ! a)). c < length (nodes t))
          \<and> slice_ok (arrays t) (Elements (nodes t ! a))"
    if "a < length (nodes t)" for a
    using search_range[of t a key] heap_invD(3)[OF inv that]
      slices_okD[OF reachable_slices_ok[OF assms] that]
    by (simp add: node_ok_def)
  ultimately show ?thesis by blast
qed

theorem C9_witness:
  "growth_ok growcap \<and> (2::int) \<le> 5
   \<and> run (New_on growcap 5) exampleTree = Some (Inr (result_of (run (New_on growcap 5) exampleTree)))
   \<and> Put (result_of (run (New_on growcap 5) exampleTree)) 10 ''j'' \<noteq> None
   \<and> Put (result_of (run (New_on growcap 5) exampleTree)) 10 ''j'' \<noteq> Some (Inl IndexOutOfRange)
   \<and> Get (result_of (run (New_on growcap 5) exampleTree)) 4 \<noteq> None
   \<and> Get (result_of (run (New_on growcap 5) exampleTree)) 4 \<noteq> Some (Inl IndexOutOfRange)
   \<and> Height (result_of (run (New_on growcap 5) exampleTree)) \<noteq> None
   \<and> Height (result_of (run (New_on growcap 5) exampleTree)) \<noteq> Some (Inl IndexOutOfRange)
   \<and> run (result_of (run (New_on growcap 5) exampleTree)) [PutOp 0 ''z'', PutOp (- 1) ''y'']
        \<noteq> Some (Inl IndexOutOfRange)
   \<and> (3::nat) < length (nodes (result_of (run (New_on growcap 5) exampleTree)))
   \<and> search (result_of (run (New_on growcap 5) exampleTree)) (Some 3) 4 = Inr (1, False)
   \<and> (1::int) \<le> int (len (Elements (nodes (result_of (run (New_on growcap 5) exampleTree)) ! 3)))
   \<and> Children (nodes (result_of (run (New_on growcap 5) exampleTree)) ! 3) \<noteq> []
   \<and> length (Children (nodes (result_of (run (New_on growcap 5) exampleTree)) ! 3))
       = len (Elements (nodes (result_of (run (New_on growcap 5) exampleTree)) ! 3)) + 1
   \<and> slice_ok (arrays (result_of (run (New_on growcap 5) exampleTree)))
        (Elements (nodes (result_of (run (New_on growcap 5) exampleTree)) ! 3))"
proof -
  let ?T = "result_of (run (New_on growcap 5) exampleTree)"
  have "holds_after (New_on growcap 5) exampleTree (\<lambda>t. 3 < length (nodes t)
      \<and> search t (Some 3) 4 = Inr (1, False) \<and> Children (nodes t ! 3) \<noteq> [])"
    unfolding exampleTree_def by code_simp
  from holds_afterD[OF this]
  have r: "run (New_on growcap 5) exampleTree = Some (Inr ?T)"
    and a: "3 < length (nodes ?T)" and s: "search ?T (Some 3) 4 = Inr (1, False)"
    and c: "Children (nodes ?T ! 3) \<noteq> []" by blast+
  have "(2::int) \<le> 5" by simp
  note th = C9_indices_in_range[OF growcap_ok this r, of 10 "''j''" 4 "[PutOp 0 ''z'', PutOp (- 1) ''y'']"]
  from th have ops: "Put ?T 10 ''j'' \<noteq> None" "Put ?T 10 ''j'' \<noteq> Some (Inl IndexOutOfRange)"
    "Get ?T 4 \<noteq> None" "Get ?T 4 \<noteq> Some (Inl IndexOutOfRange)"
    "Height ?T \<noteq> None" "Height ?T \<noteq> Some (Inl IndexOutOfRange)"
    "run ?T [PutOp 0 ''z'', PutOp (- 1) ''y''] \<noteq> Some (Inl IndexOutOfRange)"
    by blast+
  from th a have "(\<forall>i f. search ?T (Some 3) 4 = Inr (i, f) \<longrightarrow>
        0 \<le> i \<and> i \<le> int (len (Elements (nodes ?T ! 3))))
      \<and> (Children (nodes ?T ! 3) \<noteq> [] \<longrightarrow>
            length (Children (nodes ?T ! 3)) = len (Elements (nodes ?T ! 3)) + 1)
      \<and> slice_ok (arrays ?T) (Elements (nodes ?T ! 3))"
    by blast
  with s c have "(1::int) \<le> int (len (Elements (nodes ?T ! 3)))"
    and "length (Children (nodes ?T ! 3)) = len (Elements (nodes ?T ! 3)) + 1"
    and "slice_ok (arrays ?T) (Elements (nodes ?T ! 3))"
    by blast+
  with ops r a s c growcap_ok show ?thesis by simp
qed

section \<open>The empty tree\<close>

text \<open>
  C8. On an empty tree, one that was just created or one that was cleared, \<open>Height\<close>
  returns 0 and \<open>Get\<close> returns not-found for every key; both return, and neither
  panics.
\<close>

theorem C8_empty_tree:
  "Height (New m0 :: ('k::linorder, 'v) Tree) = Some (Inr 0)
   \<and> Get (New m0 :: ('k::linorder, 'v) Tree) key = Some (Inr None)
   \<and> Height (Clear t) = Some (Inr 0)
   \<and> Get (Clear t) key1 = Some (Inr None)"
  by (simp add: Height_def height_def height_loop.simps Get_def New_def New_on_def Clear_def)

section \<open>The scenario of the tests\<close>

text \<open>
  C7. With branching factor 5, putting the keys 1 to 9 with the values a to i in
  ascending order gives size 9 and height 2; the root holds the keys 3 and 6 and has
  three children, leaves that hold 1 2, 4 5 and 7 8 9; \<open>Get 3\<close> finds c and \<open>Get 16\<close>
  finds nothing; after \<open>Clear\<close> the tree is empty and its size is 0.
\<close>

theorem C7_scenario:
  "holds_after (New 5) exampleTree (\<lambda>t.
     Size t = 9 \<and> Height t = Some (Inr 2) \<and>
     (case Root t of
        None \<Rightarrow> False
      | Some r \<Rightarrow>
          keys t r = [Some 3, Some 6] \<and>
          map (keys t) (Children (nodes t ! r))
            = [[Some 1, Some 2], [Some 4, Some 5], [Some 7, Some 8, Some 9]] \<and>
          map (\<lambda>c. Children (nodes t ! c)) (Children (nodes t ! r)) = [[], [], []]) \<and>
     Get t 3 = Some (Inr (Some ''c'')) \<and> Get t 16 = Some (Inr None) \<and>
     Empty (Clear t) \<and> Size (Clear t) = 0)"
  unfolding exampleTree_def by code_simp

section \<open>Shared backing arrays\<close>

text \<open>
  A split gives the two halves of a node the slices \<open>n.Elements[:mid]\<close> and
  \<open>n.Elements[mid+1:]\<close> of the entries of the node: windows on the same backing
  array, the left one with the capacity of the whole array. (The children of the
  node are copied into new arrays.) An insertion into the left half is an \<open>append\<close>
  within that capacity; it moves the entries of the left half one cell to the right,
  over the cell of the promoted entry first and over the cells of the right half
  next. The theorems of this section run the code on such inputs.
\<close>

text \<open>
  C1, at a failing input. With branching factor 5, after the keys 1 2 3 4 5 0 -1 are
  put, \<open>Get 4\<close> finds nothing: the second insertion into the left leaf has overwritten
  the entry 4 of the right leaf, which now reads 2 5.
\<close>

theorem C1_lost_key:
  "holds_after (New 5)
     (puts [(1, ''a''), (2, ''b''), (3, ''c''), (4, ''d''), (5, ''e''), (0, ''z''), (- 1, ''y'')])
     (\<lambda>t. Get t (4::int) = Some (Inr None) \<and>
          (case Root t of
             None \<Rightarrow> False
           | Some r \<Rightarrow> keys t r = [Some 3] \<and>
               map (keys t) (Children (nodes t ! r))
                 = [[Some (- 1), Some 0, Some 1, Some 2], [Some 2, Some 5]]))"
  by code_simp

text \<open>
  C2, at a failing input. After the same seven keys, the key 4 is put again: it is not
  found, is inserted as a new key, and the size is 8 for 7 distinct keys.
\<close>

theorem C2_size_overcounts:
  "holds_after (New 5)
     (puts [(1, ''a''), (2, ''b''), (3, ''c''), (4, ''d''), (5, ''e''), (0, ''z''), (- 1, ''y''),
            (4::int, ''d'')])
     (\<lambda>t. Size t = 8)
   \<and> card (set (map fst [(1, ''a''), (2, ''b''), (3, ''c''), (4, ''d''), (5, ''e''), (0, ''z''),
                          (- 1, ''y''), (4::int, ''d'')])) = 7"
  by code_simp

text \<open>
  C3, at a failing input. With branching factor 5, after the keys
  10 20 30 40 50 1 2 3 11 12 100 the second child of the root holds the keys
  10 11 100 20, which are not ascending: it shares its cells with the third child,
  into which 100 was inserted.
\<close>

theorem C3_not_ascending:
  "holds_after (New 5)
     (puts [(10, ()), (20, ()), (30, ()), (40, ()), (50, ()), (1, ()), (2, ()), (3, ()),
            (11, ()), (12, ()), (100::int, ())])
     (\<lambda>t. case Root t of
             None \<Rightarrow> False
           | Some r \<Rightarrow> keys t r = [Some 3, Some 30] \<and>
               map (keys t) (Children (nodes t ! r))
                 = [[Some 1, Some 2], [Some 10, Some 11, Some 100, Some 20],
                    [Some 10, Some 11, Some 100]])"
  by code_simp

text \<open>
  C5, at a failing input. With branching factor 5, after the keys 1 2 3 4 5 0 -1 the
  dump writes the keys -1 0 1 2 3 2 5, and not the seven keys in ascending order.
\<close>

theorem C5_dump_not_sorted:
  "holds_after (New 5)
     (puts [(1, ''a''), (2, ''b''), (3, ''c''), (4, ''d''), (5, ''e''), (0, ''z''), (- 1, ''y'')])
     (\<lambda>t. case Print t of
             Some (Inr out) \<Rightarrow>
               out = [(1, - 1), (1, 0), (1, 1), (1, 2), (0, 3), (1, 2), (1, 5::int)]
               \<and> map snd out \<noteq> sort (remdups [1, 2, 3, 4, 5, 0, - 1])
           | _ \<Rightarrow> False)"
  by code_simp

text \<open>
  C6, at a failing input. With branching factor 4, after the keys
  10 20 30 40 1 2 3 50 60 are put, the fourth child of the root is a leaf that holds
  four entries, one more than \<open>maxElements\<close>. It was split when 60 was inserted, but
  the parent was searched for the promoted key 10, an entry that the left leaf had
  written into the shared cells, so the two halves were put in the slot of another
  leaf, and the node that was split stays in the tree.
\<close>

theorem C6_node_over_capacity:
  "holds_after (New 4)
     (puts [(10, ()), (20, ()), (30, ()), (40, ()), (1, ()), (2, ()), (3, ()), (50, ()),
            (60::int, ())])
     (\<lambda>t. maxElements t = 3 \<and>
          (case Root t of
             None \<Rightarrow> False
           | Some r \<Rightarrow> keys t r = [Some 2, Some 10, Some 20] \<and>
               map (keys t) (Children (nodes t ! r))
                 = [[Some 1], [Some 3], [Some 50, Some 60], [Some 3, Some 10, Some 50, Some 60]] \<and>
               map (\<lambda>c. Children (nodes t ! c)) (Children (nodes t ! r)) = [[], [], [], []]))"
  by code_simp

text \<open>
  The same defect leads to a panic that is not an index out of range. With branching
  factor 2, the ninth \<open>Put\<close> of the run 7 8 4 5 2 1 9 3 6 dereferences a nil parent
  in \<open>splitNonRoot\<close>: the split goes up the parent pointers to a node that has no
  parent and is not the root.
\<close>

theorem nil_parent_panic:
  "(case run (New 2) (puts [(7, ()), (8, ()), (4, ()), (5, ()), (2, ()), (1, ()), (9, ()),
                            (3, ()), (6::int, ())]) of
      Some (Inl e) \<Rightarrow> e = NilDereference
    | _ \<Rightarrow> False)"
  by code_simp

text \<open>
  The runs of this section and of the one before allocate no backing array of more
  than 8 cells (arrays are never freed in the model, so the arrays of the last state
  are all the arrays of the run): the run of the tests, the run of eight keys of which
  the run of seven is a prefix, the two other runs that return, and the eight \<open>Put\<close>s
  before the one that panics. So every \<open>append\<close> that reallocates in them does so from
  a capacity of at most 4, where the capacity doubles in the Go runtime as it does in
  \<open>growcap\<close>.
\<close>

theorem evaluated_runs_small_arrays:
  "holds_after (New 5) exampleTree (\<lambda>t. list_all (\<lambda>a. length a \<le> 8) (arrays t))
   \<and> holds_after (New 5)
       (puts [(1, ''a''), (2, ''b''), (3, ''c''), (4, ''d''), (5, ''e''), (0, ''z''), (- 1, ''y''),
              (4::int, ''d'')])
       (\<lambda>t. list_all (\<lambda>a. length a \<le> 8) (arrays t))
   \<and> holds_after (New 5)
       (puts [(10, ()), (20, ()), (30, ()), (40, ()), (50, ()), (1, ()), (2, ()), (3, ()),
              (11, ()), (12, ()), (100::int, ())])
       (\<lambda>t. list_all (\<lambda>a. length a \<le> 8) (arrays t))
   \<and> holds_after (New 4)
       (puts [(10, ()), (20, ()), (30, ()), (40, ()), (1, ()), (2, ()), (3, ()), (50, ()),
              (60::int, ())])
       (\<lambda>t. list_all (\<lambda>a. length a \<le> 8) (arrays t))
   \<and> holds_after (New 2)
       (puts [(7, ()), (8, ()), (4, ()), (5, ()), (2, ()), (1, ()), (9, ()), (3::int, ())])
       (\<lambda>t. list_all (\<lambda>a. length a \<le> 8) (arrays t))"
  unfolding exampleTree_def by code_simp

end
